theory Spec2Isabelle
  imports Main "HOL-Library.Multiset"
begin

section \<open>Python values\<close>

text \<open>
  A Python \<open>str\<close> is a sequence of Unicode code points; iterating over it and indexing
  it yield one-character strings.  A code point is a \<open>nat\<close>, a string a list of them.
  The marker \<open>'\<epsilon>'\<close> of the source is the one-character string U+03B5 (949).
\<close>

type_synonym pychar = nat
type_synonym pystr = "pychar list"

definition py :: "string \<Rightarrow> pystr" where
  \<comment> \<open>an ASCII literal as a Python string\<close>
  "py s = map of_char s"

definition eps :: pystr where
  "eps = [949]"

text \<open>
  List objects live in a store: \<open>cells\<close> maps the address of a list object to its
  current contents, \<open>next_free\<close> is the first unallocated address.  A \<open>dict\<close> from
  strings to lists is an insertion-ordered association list from keys to addresses; the
  source never writes to a dictionary once another name can reach it, so dictionaries
  are values.
\<close>

type_synonym addr = nat
type_synonym pydict = "(pystr \<times> addr) list"

datatype error = KeyError pystr | ValueError pystr

fun lookup :: "('k \<times> 'v) list \<Rightarrow> 'k \<Rightarrow> 'v option" where
  "lookup [] k = None"
| "lookup ((k', v) # d) k = (if k' = k then Some v else lookup d k)"

definition dict_set :: "('k \<times> 'v) list \<Rightarrow> 'k \<Rightarrow> 'v \<Rightarrow> ('k \<times> 'v) list" where
  \<comment> \<open>\<open>d[k] = v\<close>: an existing key keeps its position, a new key goes last\<close>
  "dict_set d k v =
     (if k \<in> fst ` set d then map (\<lambda>(k', v'). if k' = k then (k', v) else (k', v')) d
      else d @ [(k, v)])"

definition list_remove :: "'a \<Rightarrow> 'a list \<Rightarrow> 'a list option" where
  \<comment> \<open>\<open>list.remove(x)\<close>: drops the first occurrence, raises ValueError when there is none\<close>
  "list_remove x xs = (if x \<in> set xs then Some (remove1 x xs) else None)"

section \<open>class CFG\<close>

text \<open>
  A state holds the store of list objects (\<open>cells\<close>, \<open>next_free\<close>) and the fields of
  the one \<open>CFG\<close> object.  A method takes the state and returns the state after it;
  \<open>substitute_unit_productions\<close>, which can raise, returns the error instead.  The sets
  of the object are only ever tested for membership, so they are plain sets.
\<close>

record CFG =
  cells :: "addr \<Rightarrow> pystr list"
  next_free :: addr
  productions :: pydict
  non_terminals :: "pystr set"
  epsilon_non_terminals :: "pystr set"
  unit_productions :: "(pystr \<times> pystr) list"
  useful_symbols :: "pystr set"

definition CFG_init :: "(addr \<Rightarrow> pystr list) \<Rightarrow> addr \<Rightarrow> pydict \<Rightarrow> CFG" where
  \<comment> \<open>\<open>CFG(productions)\<close> in the store \<open>(h, n)\<close>; the object keeps the caller's dictionary\<close>
  "CFG_init h n prods =
     \<lparr>cells = h, next_free = n, productions = prods,
      non_terminals = set (map fst prods),
      epsilon_non_terminals = {},
      unit_productions = [],
      useful_symbols = {}\<rparr>"

definition items :: "CFG \<Rightarrow> (pystr \<times> pystr list) list" where
  \<comment> \<open>\<open>self.productions.items()\<close> with every list read from the store\<close>
  "items st = map (\<lambda>(nt, a). (nt, cells st a)) (productions st)"

definition find_epsilon_productions :: "CFG \<Rightarrow> CFG" where
  "find_epsilon_productions st =
     st\<lparr>epsilon_non_terminals :=
          fold (\<lambda>(non_terminal, rules) E.
                  fold (\<lambda>rule E'. if rule = eps then insert non_terminal E' else E') rules E)
               (items st) (epsilon_non_terminals st)\<rparr>"

definition generate_new_rules :: "pystr set \<Rightarrow> pystr \<Rightarrow> pystr list" where
  "generate_new_rules E rule =
     fold (\<lambda>i new_rules.
             if [rule ! i] \<in> E then new_rules @ [take i rule @ drop (Suc i) rule]
             else new_rules)
          [0..<length rule] []"

definition extend_rules :: "pystr set \<Rightarrow> pystr list \<Rightarrow> pystr list" where
  \<comment> \<open>the list built for one nonterminal by \<open>remove_epsilon_productions\<close>\<close>
  "extend_rules E rules =
     fold (\<lambda>rule acc.
             if list_ex (\<lambda>symbol. [symbol] \<in> E) rule then acc @ generate_new_rules E rule
             else acc)
          rules [rule \<leftarrow> rules. rule \<noteq> eps]"

definition remove_epsilon_step ::
  "pystr set \<Rightarrow> pystr \<times> addr \<Rightarrow> (addr \<Rightarrow> pystr list) \<times> addr \<times> pydict
     \<Rightarrow> (addr \<Rightarrow> pystr list) \<times> addr \<times> pydict" where
  \<comment> \<open>one round of the outer loop: a fresh list object, stored under the key\<close>
  "remove_epsilon_step E = (\<lambda>(non_terminal, a) (h, n, new_productions).
     (h(n := extend_rules E (h a)), Suc n, dict_set new_productions non_terminal n))"

definition remove_epsilon_productions :: "CFG \<Rightarrow> CFG" where
  "remove_epsilon_productions st =
     (case fold (remove_epsilon_step (epsilon_non_terminals st)) (productions st)
             (cells st, next_free st, [])
      of (h, n, new_productions) \<Rightarrow>
        st\<lparr>cells := h, next_free := n, productions := new_productions\<rparr>)"

definition remove_epsilon :: "CFG \<Rightarrow> CFG" where
  "remove_epsilon st = remove_epsilon_productions (find_epsilon_productions st)"

definition find_unit_productions :: "CFG \<Rightarrow> CFG" where
  "find_unit_productions st =
     st\<lparr>unit_productions :=
          fold (\<lambda>(non_terminal, rules) units.
                  fold (\<lambda>rule units'.
                          if rule \<in> non_terminals st then units' @ [(non_terminal, rule)]
                          else units')
                       rules units)
               (items st) (unit_productions st)\<rparr>"

definition substitute_step ::
  "pydict \<Rightarrow> pystr \<times> pystr \<Rightarrow> (addr \<Rightarrow> pystr list) \<Rightarrow> error + (addr \<Rightarrow> pystr list)" where
  \<comment> \<open>\<open>productions[nt].remove(unit); productions[nt].extend(productions[unit])\<close>\<close>
  "substitute_step d = (\<lambda>(non_terminal, unit) h.
     case lookup d non_terminal of
       None \<Rightarrow> Inl (KeyError non_terminal)
     | Some a \<Rightarrow>
        (case list_remove unit (h a) of
           None \<Rightarrow> Inl (ValueError unit)
         | Some rules \<Rightarrow>
            (let h1 = h(a := rules) in
             case lookup d unit of
               None \<Rightarrow> Inl (KeyError unit)
             | Some b \<Rightarrow> Inr (h1(a := h1 a @ h1 b)))))"

fun substitute_loop ::
  "pydict \<Rightarrow> (pystr \<times> pystr) list \<Rightarrow> (addr \<Rightarrow> pystr list) \<Rightarrow> error + (addr \<Rightarrow> pystr list)" where
  "substitute_loop d [] h = Inr h"
| "substitute_loop d (p # ps) h =
     (case substitute_step d p h of
        Inl e \<Rightarrow> Inl e
      | Inr h' \<Rightarrow> substitute_loop d ps h')"

definition substitute_unit_productions :: "CFG \<Rightarrow> error + CFG" where
  "substitute_unit_productions st =
     (case substitute_loop (productions st) (unit_productions st) (cells st) of
        Inl e \<Rightarrow> Inl e
      | Inr h \<Rightarrow> Inr (st\<lparr>cells := h\<rparr>))"

definition remove_unit_productions :: "CFG \<Rightarrow> error + CFG" where
  "remove_unit_productions st = substitute_unit_productions (find_unit_productions st)"

definition find_useful_symbols :: "(pychar \<Rightarrow> bool) \<Rightarrow> CFG \<Rightarrow> CFG" where
  \<comment> \<open>\<open>islower\<close> is \<open>str.islower\<close> on a one-character string (the Unicode tables)\<close>
  "find_useful_symbols islower st =
     st\<lparr>useful_symbols :=
          fold (\<lambda>(non_terminal, rules) U.
                  fold (\<lambda>rule U'.
                          if list_all (\<lambda>symbol. islower symbol \<or> [symbol] \<in> non_terminals st) rule
                          then insert non_terminal U' else U')
                       rules U)
               (items st) (useful_symbols st)\<rparr>"

definition remove_useless_symbols :: "(pychar \<Rightarrow> bool) \<Rightarrow> CFG \<Rightarrow> CFG" where
  "remove_useless_symbols islower st =
     (let st' = find_useful_symbols islower st in
      st'\<lparr>productions := [(nt, rules) \<leftarrow> productions st'. nt \<in> useful_symbols st']\<rparr>)"

definition transform :: "(pychar \<Rightarrow> bool) \<Rightarrow> CFG \<Rightarrow> error + CFG" where
  \<comment> \<open>the returned dictionary is \<open>productions\<close> of the final state\<close>
  "transform islower st =
     (case remove_unit_productions (remove_epsilon st) of
        Inl e \<Rightarrow> Inl e
      | Inr st' \<Rightarrow> Inr (remove_useless_symbols islower st'))"

definition normalize_twice :: "(pychar \<Rightarrow> bool) \<Rightarrow> CFG \<Rightarrow> error + CFG" where
  \<comment> \<open>\<open>CFG(cfg.transform()).transform()\<close>: a second object built from the returned dictionary\<close>
  "normalize_twice islower st =
     (case transform islower st of
        Inl e \<Rightarrow> Inl e
      | Inr st1 \<Rightarrow> transform islower (CFG_init (cells st1) (next_free st1) (productions st1)))"

definition py_islower :: "pychar \<Rightarrow> bool" where
  \<comment> \<open>\<open>str.islower\<close> on the code points the examples use: ASCII, where the lower-case
      characters are a to z, and the marker U+03B5, a lower-case letter\<close>
  "py_islower c = (97 \<le> c \<and> c \<le> 122 \<or> c = 949)"

section \<open>class PDAtoCFG\<close>

text \<open>
  \<open>transitions\<close> is a dictionary from \<open>(state, input, stack top)\<close> to a set of
  \<open>(next state, pushed string)\<close>; the dictionary is an association list in insertion
  order and each set is the list of its elements in the order the loop meets them.
  \<open>convert\<close> has no operation that can raise, so it returns the object.
\<close>

type_synonym transitions = "((pystr \<times> pystr \<times> pystr) \<times> (pystr \<times> pystr) list) list"

record PDAtoCFG =
  states :: "pystr set"
  input_alphabet :: "pystr set"
  stack_alphabet :: "pystr set"
  transitions :: transitions
  start_state :: pystr
  start_symbol :: pystr
  final_state :: pystr
  cfg_productions :: "(pystr \<times> pystr list) list"

definition PDAtoCFG_init ::
  "pystr set \<Rightarrow> pystr set \<Rightarrow> pystr set \<Rightarrow> transitions \<Rightarrow> pystr \<Rightarrow> pystr \<Rightarrow> pystr \<Rightarrow> PDAtoCFG" where
  "PDAtoCFG_init sts ia sa tr s0 z0 f =
     \<lparr>states = sts, input_alphabet = ia, stack_alphabet = sa, transitions = tr,
      start_state = s0, start_symbol = z0, final_state = f, cfg_productions = []\<rparr>"

definition add_production ::
  "pystr \<Rightarrow> pystr \<Rightarrow> (pystr \<times> pystr list) list \<Rightarrow> (pystr \<times> pystr list) list" where
  \<comment> \<open>the lists of \<open>cfg_productions\<close> are created here and reached through it alone\<close>
  "add_production lhs rhs prods =
     (let prods' = (if lhs \<notin> fst ` set prods then prods @ [(lhs, [])] else prods)
      in map (\<lambda>(k, rules). if k = lhs then (k, rules @ [rhs]) else (k, rules)) prods')"

definition rhs_at :: "pystr \<Rightarrow> pystr \<Rightarrow> pystr \<Rightarrow> pystr \<Rightarrow> nat \<Rightarrow> pystr" where
  \<comment> \<open>the right-hand side built in round \<open>i\<close> of the innermost loop\<close>
  "rhs_at current_state input_symbol next_state new_stack i =
     (let rhs = (if input_symbol \<noteq> eps then input_symbol else [])
      in if i < length new_stack then rhs @ (current_state @ take i new_stack @ next_state)
         else rhs)"

definition convert_productions :: "transitions \<Rightarrow> (pystr \<times> pystr list) list \<Rightarrow> (pystr \<times> pystr list) list" where
  "convert_productions tr prods =
     fold (\<lambda>((current_state, input_symbol, stack_symbol), next_states) acc.
        fold (\<lambda>(next_state, new_stack) acc'.
           fold (\<lambda>i acc''.
                   add_production (current_state @ stack_symbol @ next_state)
                     (rhs_at current_state input_symbol next_state new_stack i) acc'')
                [0..<length new_stack + 1] acc')
          next_states acc)
       tr prods"

definition convert :: "PDAtoCFG \<Rightarrow> PDAtoCFG" where
  "convert pda = pda\<lparr>cfg_productions := convert_productions (transitions pda) (cfg_productions pda)\<rparr>"

section \<open>The specification's notions\<close>

text \<open>
  The nullable set in the specification's words: the least set of nonterminals closed
  under "some alternative is the epsilon marker, or some alternative consists entirely
  of nullable nonterminals".
\<close>

inductive spec_nullable :: "(pystr \<times> pystr list) list \<Rightarrow> pystr \<Rightarrow> bool" for g where
  marker: "(A, rules) \<in> set g \<Longrightarrow> eps \<in> set rules \<Longrightarrow> spec_nullable g A"
| closed: "(A, rules) \<in> set g \<Longrightarrow> rule \<in> set rules \<Longrightarrow> \<forall>c \<in> set rule. spec_nullable g [c]
     \<Longrightarrow> spec_nullable g A"

text \<open>
  The alternatives the specification asks of one right-hand side: one for every
  non-empty set \<open>D\<close> of positions occupied by nullable nonterminals, with the positions
  of \<open>D\<close> deleted.
\<close>

definition spec_deletions :: "pystr set \<Rightarrow> pystr \<Rightarrow> pystr set" where
  "spec_deletions E rule =
     {nths rule (- D) | D. D \<noteq> {} \<and> D \<subseteq> {i. i < length rule \<and> [rule ! i] \<in> E}}"

text \<open>
  The right-hand side the specification asks for a push of \<open>Y1 ... Yk\<close> from state \<open>r\<close>
  through the states \<open>r1 ... rk\<close>: the variables \<open>[r, Y1, r1] [r1, Y2, r2] ...\<close>, each
  named as the converter names its variables, by concatenation.
\<close>

fun spec_body :: "pystr \<Rightarrow> pystr list \<Rightarrow> pystr list \<Rightarrow> pystr" where
  "spec_body r (Y # Ys) (q # qs) = (r @ Y @ q) @ spec_body q Ys qs"
| "spec_body r _ _ = []"

text \<open>
  Generating and reachable in the specification's words.  A symbol that is not a
  nonterminal of the grammar is a terminal, and a terminal is generating; a nonterminal
  is generating when one of its alternatives is composed of generating symbols.  The
  start symbol is reachable, and so is every symbol of an alternative of a reachable
  nonterminal.
\<close>

inductive spec_generating :: "(pystr \<times> pystr list) list \<Rightarrow> pystr \<Rightarrow> bool" for g where
  "(A, rules) \<in> set g \<Longrightarrow> rule \<in> set rules \<Longrightarrow>
   \<forall>c \<in> set rule. [c] \<in> fst ` set g \<longrightarrow> spec_generating g [c] \<Longrightarrow> spec_generating g A"

inductive spec_reachable :: "(pystr \<times> pystr list) list \<Rightarrow> pystr \<Rightarrow> pystr \<Rightarrow> bool" for g start where
  "spec_reachable g start start"
| "spec_reachable g start A \<Longrightarrow> (A, rules) \<in> set g \<Longrightarrow> rule \<in> set rules \<Longrightarrow> c \<in> set rule \<Longrightarrow>
   spec_reachable g start [c]"

text \<open>
  Two of the specification's error kinds, as conditions on the input: the marker mixed
  with other symbols in one alternative, and a transition that names a state outside the
  declared state set.
\<close>

definition spec_malformed_epsilon :: "(pystr \<times> pystr list) list \<Rightarrow> bool" where
  "spec_malformed_epsilon its =
     (\<exists>(A, rules) \<in> set its. \<exists>rule \<in> set rules. 949 \<in> set rule \<and> rule \<noteq> eps)"

definition spec_undefined_state :: "PDAtoCFG \<Rightarrow> bool" where
  "spec_undefined_state pda =
     (\<exists>((p, a, X), next_states) \<in> set (transitions pda).
        p \<notin> states pda \<or> (\<exists>(r, w) \<in> set next_states. r \<notin> states pda))"

section \<open>Example inputs\<close>

definition nullable_example :: CFG where
  \<comment> \<open>\<open>CFG({'A': ['BC'], 'B': ['\<epsilon>'], 'C': ['\<epsilon>']})\<close>\<close>
  "nullable_example =
     CFG_init ((\<lambda>_. [])(0 := [py ''BC''], 1 := [eps], 2 := [eps])) 3
       [(py ''A'', 0), (py ''B'', 1), (py ''C'', 2)]"

definition subsets_example :: CFG where
  \<comment> \<open>\<open>CFG({'S': ['AB', 'AA'], 'A': ['\<epsilon>', 'a'], 'B': ['\<epsilon>', 'b']})\<close>\<close>
  "subsets_example =
     CFG_init ((\<lambda>_. [])(0 := [py ''AB'', py ''AA''], 1 := [eps, py ''a''], 2 := [eps, py ''b''])) 3
       [(py ''S'', 0), (py ''A'', 1), (py ''B'', 2)]"

definition empty_rhs_example :: CFG where
  \<comment> \<open>\<open>CFG({'S': ['A'], 'B': ['A'], 'A': ['\<epsilon>']})\<close>\<close>
  "empty_rhs_example =
     CFG_init ((\<lambda>_. [])(0 := [py ''A''], 1 := [py ''A''], 2 := [eps])) 3
       [(py ''S'', 0), (py ''B'', 1), (py ''A'', 2)]"

definition useless_example :: CFG where
  \<comment> \<open>\<open>CFG({'S': ['aX', 'a'], 'X': ['aX'], 'Y': ['b'], 'W': ['D']})\<close>\<close>
  "useless_example =
     CFG_init ((\<lambda>_. [])(0 := [py ''aX'', py ''a''], 1 := [py ''aX''], 2 := [py ''b''], 3 := [py ''D''])) 4
       [(py ''S'', 0), (py ''X'', 1), (py ''Y'', 2), (py ''W'', 3)]"

definition unit_example :: CFG where
  \<comment> \<open>\<open>CFG({'A': ['B'], 'B': ['C'], 'C': ['d']})\<close>\<close>
  "unit_example =
     CFG_init ((\<lambda>_. [])(0 := [py ''B''], 1 := [py ''C''], 2 := [py ''d''])) 3
       [(py ''A'', 0), (py ''B'', 1), (py ''C'', 2)]"

definition one_step_example :: CFG where
  \<comment> \<open>\<open>CFG({'A': ['B', 'a'], 'B': ['d']})\<close>\<close>
  "one_step_example =
     CFG_init ((\<lambda>_. [])(0 := [py ''B'', py ''a''], 1 := [py ''d''])) 2
       [(py ''A'', 0), (py ''B'', 1)]"

definition self_unit_example :: CFG where
  \<comment> \<open>\<open>CFG({'A': ['A', 'B', 'A', 'a'], 'B': ['B', 'A']})\<close>: self-units and duplicates\<close>
  "self_unit_example =
     CFG_init ((\<lambda>_. [])(0 := [py ''A'', py ''B'', py ''A'', py ''a''], 1 := [py ''B'', py ''A''])) 2
       [(py ''A'', 0), (py ''B'', 1)]"

definition malformed_example :: CFG where
  \<comment> \<open>\<open>CFG({'S': ['a\<epsilon>', 'b']})\<close>: the marker mixed with another symbol\<close>
  "malformed_example =
     CFG_init ((\<lambda>_. [])(0 := [py ''a'' @ eps, py ''b''])) 1 [(py ''S'', 0)]"

definition undeclared_example :: PDAtoCFG where
  \<comment> \<open>states \<open>q0\<close> only, one transition \<open>q0,a,Z,q9,\<epsilon>\<close> into the undeclared \<open>q9\<close>\<close>
  "undeclared_example =
     PDAtoCFG_init {py ''q0''} {py ''a''} {py ''Z''}
       [((py ''q0'', py ''a'', py ''Z''), [(py ''q9'', eps)])]
       (py ''q0'') (py ''Z'') (py ''q0'')"

definition shared_list_example :: CFG where
  \<comment> \<open>\<open>l = ['A', 'B']; CFG({'A': l, 'B': l})\<close>: one list object under two keys\<close>
  "shared_list_example =
     CFG_init ((\<lambda>_. [])(0 := [py ''A'', py ''B''])) 1 [(py ''A'', 0), (py ''B'', 0)]"

definition shared_no_chain_example :: CFG where
  \<comment> \<open>\<open>l = ['C', 'a']; CFG({'A': l, 'B': l, 'C': ['d']})\<close>: no chain, one list under two keys\<close>
  "shared_no_chain_example =
     CFG_init ((\<lambda>_. [])(0 := [py ''C'', py ''a''], 1 := [py ''d'']))
       2 [(py ''A'', 0), (py ''B'', 0), (py ''C'', 1)]"

definition push_example :: PDAtoCFG where
  \<comment> \<open>states \<open>q0, q1\<close>, one transition \<open>q0,a,Z,q1,X\<close>: a single push\<close>
  "push_example =
     PDAtoCFG_init {py ''q0'', py ''q1''} {py ''a''} {py ''Z'', py ''X''}
       [((py ''q0'', py ''a'', py ''Z''), [(py ''q1'', py ''X'')])]
       (py ''q0'') (py ''Z'') (py ''q1'')"

section \<open>Auxiliary notions of the proofs\<close>

text \<open>
  The alternatives stored under a left-hand side (none when it is not a key), and the
  pieces of the loop nest of \<open>convert\<close>.
\<close>

definition alts :: "(pystr \<times> pystr list) list \<Rightarrow> pystr \<Rightarrow> pystr list" where
  "alts prods L = (case lookup prods L of None \<Rightarrow> [] | Some rs \<Rightarrow> rs)"

definition no_empty :: "(pystr \<times> pystr list) list \<Rightarrow> bool" where
  "no_empty prods = (\<forall>L. lookup prods L \<noteq> Some [])"

definition emit_one :: "pystr \<Rightarrow> pystr \<Rightarrow> pystr \<Rightarrow> pystr \<times> pystr \<Rightarrow> (pystr \<times> pystr list) list
    \<Rightarrow> (pystr \<times> pystr list) list" where
  "emit_one p a X = (\<lambda>(r, w) acc.
     fold (\<lambda>i acc'. add_production (p @ X @ r) (rhs_at p a r w i) acc') [0..<length w + 1] acc)"

definition emit_all :: "(pystr \<times> pystr \<times> pystr) \<times> (pystr \<times> pystr) list \<Rightarrow> (pystr \<times> pystr list) list
    \<Rightarrow> (pystr \<times> pystr list) list" where
  "emit_all = (\<lambda>((p, a, X), nexts) acc. fold (emit_one p a X) nexts acc)"

definition emitted :: "transitions \<Rightarrow> pystr \<Rightarrow> pystr list" where
  "emitted tr L =
     concat (map (\<lambda>((p, a, X), nexts).
       concat (map (\<lambda>(r, w). if L = p @ X @ r then map (rhs_at p a r w) [0..<length w + 1] else [])
                 nexts)) tr)"

text \<open>
  For the unit stage: the units still to be substituted for a nonterminal, the store
  after one substitution, the pairs \<open>find_unit_productions\<close> records, and the two
  invariants of the substitution loop (every pending unit is still in its list; with no
  chains, the units in a list are exactly the pending ones).
\<close>

definition pending :: "(pystr \<times> pystr) list \<Rightarrow> pystr \<Rightarrow> pystr list" where
  "pending ps A = map snd (filter (\<lambda>p. fst p = A) ps)"

definition unit_inv :: "pydict \<Rightarrow> (addr \<Rightarrow> pystr list) \<Rightarrow> (pystr \<times> pystr) list \<Rightarrow> bool" where
  "unit_inv d h ps \<longleftrightarrow>
     (\<forall>p \<in> set ps. fst p \<in> fst ` set d \<and> snd p \<in> fst ` set d) \<and>
     (\<forall>(A, a) \<in> set d. mset (pending ps A) \<subseteq># mset (h a))"

definition substituted :: "(addr \<Rightarrow> pystr list) \<Rightarrow> addr \<Rightarrow> pystr \<Rightarrow> addr \<Rightarrow> addr \<Rightarrow> pystr list" where
  "substituted h a r b = (h(a := remove1 r (h a) @ (h(a := remove1 r (h a))) b))"

definition recorded :: "pystr set \<Rightarrow> (pystr \<times> pystr list) list \<Rightarrow> (pystr \<times> pystr) list" where
  "recorded N its = concat (map (\<lambda>(nt, rules). map (Pair nt) (filter (\<lambda>rule. rule \<in> N) rules)) its)"

definition unit_inv2 ::
  "pydict \<Rightarrow> pystr set \<Rightarrow> (addr \<Rightarrow> pystr list) \<Rightarrow> (pystr \<times> pystr) list \<Rightarrow> bool" where
  "unit_inv2 d N h ps \<longleftrightarrow>
     (\<forall>p \<in> set ps. fst p \<in> fst ` set d \<and> snd p \<in> fst ` set d \<and> snd p \<in> N \<and>
                    pending ps (snd p) = []) \<and>
     (\<forall>(A, a) \<in> set d. mset (filter (\<lambda>rule. rule \<in> N) (h a)) = mset (pending ps A))"

text \<open>
  With no chains the lists can be followed exactly: the alternatives that are not
  nonterminals stay in order, and the list of each substituted unit is appended.
\<close>

definition target_list :: "pydict \<Rightarrow> (addr \<Rightarrow> pystr list) \<Rightarrow> pystr \<Rightarrow> pystr list" where
  "target_list d h0 r = (case lookup d r of None \<Rightarrow> [] | Some b \<Rightarrow> h0 b)"

definition unit_inv3 ::
  "pydict \<Rightarrow> pystr set \<Rightarrow> (addr \<Rightarrow> pystr list) \<Rightarrow> (addr \<Rightarrow> pystr list) \<Rightarrow> (pystr \<times> pystr) list \<Rightarrow> bool" where
  "unit_inv3 d N h0 h dn \<longleftrightarrow>
     (\<forall>(A, a) \<in> set d. filter (\<lambda>rule. rule \<notin> N) (h a) =
        filter (\<lambda>rule. rule \<notin> N) (h0 a) @ concat (map (target_list d h0) (pending dn A))) \<and>
     (\<forall>(B, b) \<in> set d. filter (\<lambda>rule. rule \<in> N) (h0 b) = [] \<longrightarrow> h b = h0 b)"

text \<open>
  The states of \<open>transform\<close> after its first and second stage, on a fresh object.
\<close>

definition after_epsilon :: "(addr \<Rightarrow> pystr list) \<Rightarrow> addr \<Rightarrow> pydict \<Rightarrow> (addr \<Rightarrow> pystr list) \<Rightarrow> CFG" where
  "after_epsilon h n g h1 =
     (find_epsilon_productions (CFG_init h n g))
       \<lparr>cells := h1, next_free := n + length g,
        productions := zip (map fst g) [n..<n + length g]\<rparr>"

definition after_units ::
  "(addr \<Rightarrow> pystr list) \<Rightarrow> addr \<Rightarrow> pydict \<Rightarrow> (addr \<Rightarrow> pystr list) \<Rightarrow> (addr \<Rightarrow> pystr list) \<Rightarrow> CFG" where
  "after_units h n g h1 h2 =
     (find_unit_productions (after_epsilon h n g h1))\<lparr>cells := h2\<rparr>"


section \<open>Basic facts\<close>

lemma py_simps:
  "py [] = []" "py (c # s) = of_char c # py s"
  by (simp_all add: py_def)

section \<open>Epsilon elimination: the recorded nonterminals\<close>

lemma fold_eps_rules:
  "fold (\<lambda>rule E'. if rule = eps then insert nt E' else E') rules E =
     (if eps \<in> set rules then insert nt E else E)"
  by (induction rules arbitrary: E) auto

lemma fold_eps_items:
  "fold (\<lambda>(non_terminal, rules) E. if eps \<in> set rules then insert non_terminal E else E) its E0 =
     E0 \<union> {nt. \<exists>rules. (nt, rules) \<in> set its \<and> eps \<in> set rules}"
proof (induction its arbitrary: E0)
  case Nil
  then show ?case by simp
next
  case (Cons it its)
  obtain nt rules where it: "it = (nt, rules)" by (cases it)
  have "fold (\<lambda>(non_terminal, rules) E. if eps \<in> set rules then insert non_terminal E else E)
          (it # its) E0 =
        (if eps \<in> set rules then insert nt E0 else E0) \<union>
          {nt. \<exists>rules. (nt, rules) \<in> set its \<and> eps \<in> set rules}"
    unfolding it by (simp only: fold_simps Cons.IH prod.case comp_def)
  also have "\<dots> = E0 \<union> {n. \<exists>rs. (n, rs) \<in> set ((nt, rules) # its) \<and> eps \<in> set rs}"
    by auto
  finally show ?case unfolding it .
qed

lemma nullable_example_items:
  "items nullable_example = [([65], [ [66, 67]]), ([66], [eps]), ([67], [eps])]"
  by (simp add: nullable_example_def CFG_init_def items_def py_simps)

lemma nullable_example_eps: "epsilon_non_terminals nullable_example = {}"
  by (simp add: nullable_example_def CFG_init_def)

text \<open>
  C1 (as the code has it): \<open>find_epsilon_productions\<close> makes one scan and adds to the
  recorded set exactly the nonterminals that have an alternative equal to the marker
  \<open>'\<epsilon>'\<close>; nothing is propagated through alternatives made of recorded nonterminals.
\<close>

theorem find_epsilon_productions_direct:
  "epsilon_non_terminals (find_epsilon_productions st) =
     epsilon_non_terminals st \<union> {nt. \<exists>rules. (nt, rules) \<in> set (items st) \<and> eps \<in> set rules}"
  by (simp add: find_epsilon_productions_def fold_eps_rules fold_eps_items)

theorem find_epsilon_productions_direct_witness:
  "[66] \<in> epsilon_non_terminals (find_epsilon_productions nullable_example) \<and>
   [65] \<notin> epsilon_non_terminals (find_epsilon_productions nullable_example)"
  using find_epsilon_productions_direct [of nullable_example]
  by (simp add: nullable_example_items nullable_example_eps eps_def)

text \<open>
  C1 (as stated) fails: in \<open>A -> BC, B -> \<epsilon>, C -> \<epsilon>\<close> the nonterminal \<open>A\<close> (65) is in the
  least closed set of the specification, and the stage does not record it.
\<close>

theorem nullable_closure_counterexample:
  "spec_nullable (items nullable_example) [65] \<and>
   [65] \<notin> epsilon_non_terminals (find_epsilon_productions nullable_example)"
proof
  have B: "spec_nullable (items nullable_example) [66]"
    by (rule spec_nullable.marker [where rules = "[eps]"]) (simp_all add: nullable_example_items)
  have C: "spec_nullable (items nullable_example) [67]"
    by (rule spec_nullable.marker [where rules = "[eps]"]) (simp_all add: nullable_example_items)
  have "\<forall>c \<in> set [66, 67]. spec_nullable (items nullable_example) [c]"
    using B C by simp
  then show "spec_nullable (items nullable_example) [65]"
    by (rule spec_nullable.closed [where rules = "[ [66, 67]]" and rule = "[66, 67]", rotated 2])
       (simp_all add: nullable_example_items)
  show "[65] \<notin> epsilon_non_terminals (find_epsilon_productions nullable_example)"
    by (simp add: find_epsilon_productions_def fold_eps_rules nullable_example_items
          nullable_example_eps eps_def)
qed

section \<open>Epsilon elimination: the rewritten alternatives\<close>

lemma fold_append_if:
  "fold (\<lambda>i acc. if P i then acc @ [f i] else acc) xs acc0 = acc0 @ map f (filter P xs)"
  by (induction xs arbitrary: acc0) simp_all

lemma generate_new_rules_eq:
  "generate_new_rules E rule =
     map (\<lambda>i. take i rule @ drop (Suc i) rule) [i \<leftarrow> [0..<length rule]. [rule ! i] \<in> E]"
  by (simp add: generate_new_rules_def fold_append_if)

lemma generate_new_rules_Nil:
  assumes "\<not> list_ex (\<lambda>symbol. [symbol] \<in> E) rule"
  shows "generate_new_rules E rule = []"
proof -
  have "[i \<leftarrow> [0..<length rule]. [rule ! i] \<in> E] = []"
    using assms by (auto simp: filter_empty_conv list_ex_iff)
  then show ?thesis by (simp add: generate_new_rules_eq)
qed

lemma fold_extend_if:
  "fold (\<lambda>rule acc. if Q rule then acc @ g rule else acc) rules acc0 =
     acc0 @ concat (map g (filter Q rules))"
  by (induction rules arbitrary: acc0) simp_all

lemma concat_generate_filter:
  "concat (map (generate_new_rules E) (filter (list_ex (\<lambda>symbol. [symbol] \<in> E)) rules)) =
     concat (map (generate_new_rules E) rules)"
  by (induction rules) (simp_all add: generate_new_rules_Nil)

lemma extend_rules_eq:
  "extend_rules E rules =
     [rule \<leftarrow> rules. rule \<noteq> eps] @ concat (map (generate_new_rules E) rules)"
  by (simp add: extend_rules_def fold_extend_if concat_generate_filter)

lemma dict_set_fresh: "k \<notin> fst ` set d \<Longrightarrow> dict_set d k v = d @ [(k, v)]"
  by (simp add: dict_set_def)

lemma fold_remove_epsilon_step:
  assumes "distinct (map fst d)" and "fst ` set d \<inter> fst ` set nd = {}"
    and "\<forall>a \<in> snd ` set d. a < n"
  shows "\<exists>h'. fold (remove_epsilon_step E) d (h, n, nd) =
           (h', n + length d, nd @ zip (map fst d) [n..<n + length d]) \<and>
         (\<forall>x < n. h' x = h x) \<and>
         map h' [n..<n + length d] = map (\<lambda>(k, a). extend_rules E (h a)) d"
  using assms
proof (induction d arbitrary: h n nd)
  case Nil
  then show ?case by simp
next
  case (Cons p d)
  obtain k a where p: "p = (k, a)" by (cases p)
  let ?h1 = "h(n := extend_rules E (h a))"
  let ?nd1 = "nd @ [(k, n)]"
  from Cons.prems p have fresh: "k \<notin> fst ` set nd" and a: "a < n" by auto
  have step: "remove_epsilon_step E p (h, n, nd) = (?h1, Suc n, ?nd1)"
    by (simp add: remove_epsilon_step_def p dict_set_fresh [OF fresh])
  have d1: "distinct (map fst d)" using Cons.prems by simp
  have d2: "fst ` set d \<inter> fst ` set ?nd1 = {}"
    using Cons.prems p by auto
  have d3: "\<forall>a \<in> snd ` set d. a < Suc n" using Cons.prems by auto
  from Cons.IH [OF d1 d2 d3, of ?h1]
  obtain h' where
    f: "fold (remove_epsilon_step E) d (?h1, Suc n, ?nd1) =
          (h', Suc n + length d, ?nd1 @ zip (map fst d) [Suc n..<Suc n + length d])"
    and keep: "\<forall>x < Suc n. h' x = ?h1 x"
    and new: "map h' [Suc n..<Suc n + length d] = map (\<lambda>(k, a). extend_rules E (?h1 a)) d"
    by blast
  have upt: "[n..<n + length (p # d)] = n # [Suc n..<Suc n + length d]"
    by (simp add: upt_rec)
  have "fold (remove_epsilon_step E) (p # d) (h, n, nd) =
          fold (remove_epsilon_step E) d (?h1, Suc n, ?nd1)"
    by (simp add: step)
  also note f
  also have "(h', Suc n + length d, ?nd1 @ zip (map fst d) [Suc n..<Suc n + length d]) =
      (h', n + length (p # d), nd @ zip (map fst (p # d)) [n..<n + length (p # d)])"
    unfolding upt by (simp add: p)
  finally have 1: "fold (remove_epsilon_step E) (p # d) (h, n, nd) =
            (h', n + length (p # d), nd @ zip (map fst (p # d)) [n..<n + length (p # d)])" .
  have 2: "\<forall>x < n. h' x = h x" using keep by simp
  have old: "map (\<lambda>(k, a). extend_rules E (?h1 a)) d = map (\<lambda>(k, a). extend_rules E (h a)) d"
    using Cons.prems by (auto simp: image_iff)
  have "h' n = extend_rules E (h a)" using keep by simp
  then have 3: "map h' [n..<n + length (p # d)] = map (\<lambda>(k, a). extend_rules E (h a)) (p # d)"
    unfolding upt using new old by (simp add: p)
  from 1 2 3 show ?case by blast
qed

lemma zip_keys_items:
  assumes "map h' ns = map (\<lambda>(k, a). f (h a)) d"
  shows "map (\<lambda>(k, a). (k, h' a)) (zip (map fst d) ns) = map (\<lambda>(k, a). (k, f (h a))) d"
  using assms
proof (induction d arbitrary: ns)
  case Nil
  then show ?case by simp
next
  case (Cons p d)
  then show ?case by (cases ns) (auto split: prod.splits)
qed

lemma items_remove_epsilon_productions:
  assumes "distinct (map fst (productions st))"
    and "\<forall>a \<in> snd ` set (productions st). a < next_free st"
  shows "items (remove_epsilon_productions st) =
     map (\<lambda>(nt, rules). (nt, extend_rules (epsilon_non_terminals st) rules)) (items st)"
proof -
  from fold_remove_epsilon_step [OF assms(1) _ assms(2), of "[]"
      "epsilon_non_terminals st" "cells st"]
  obtain h' where
    f: "fold (remove_epsilon_step (epsilon_non_terminals st)) (productions st)
          (cells st, next_free st, []) =
        (h', next_free st + length (productions st),
         zip (map fst (productions st)) [next_free st..<next_free st + length (productions st)])"
    and new: "map h' [next_free st..<next_free st + length (productions st)] =
        map (\<lambda>(k, a). extend_rules (epsilon_non_terminals st) (cells st a)) (productions st)"
    by auto
  note z = zip_keys_items [where f = "extend_rules (epsilon_non_terminals st)" and h = "cells st",
      OF new]
  show ?thesis
    using z by (simp add: items_def remove_epsilon_productions_def f case_prod_unfold comp_def)
qed

lemmas eval_defs = CFG_init_def items_def find_epsilon_productions_def remove_epsilon_def
  remove_epsilon_productions_def remove_epsilon_step_def extend_rules_def generate_new_rules_def
  dict_set_def find_unit_productions_def substitute_unit_productions_def substitute_step_def
  list_remove_def remove_unit_productions_def find_useful_symbols_def remove_useless_symbols_def
  transform_def py_simps eps_def

text \<open>
  C5 (as the code has it): for a dictionary with distinct keys whose lists are allocated,
  the stage gives every nonterminal its alternatives other than the marker, followed, for
  every alternative in order, by one new alternative for each single position holding a
  recorded nonterminal, with that one position deleted.  Nothing is emitted for larger
  sets of positions and nothing is deduplicated.
\<close>

theorem remove_epsilon_productions_single_deletions:
  assumes "distinct (map fst (productions st))"
    and "\<forall>a \<in> snd ` set (productions st). a < next_free st"
  shows "items (remove_epsilon_productions st) =
     map (\<lambda>(nt, rules).
            (nt, [rule \<leftarrow> rules. rule \<noteq> eps] @
                 concat (map (\<lambda>rule. map (\<lambda>i. take i rule @ drop (Suc i) rule)
                                        [i \<leftarrow> [0..<length rule]. [rule ! i] \<in> epsilon_non_terminals st])
                             rules)))
         (items st)"
proof -
  have "extend_rules (epsilon_non_terminals st) =
      (\<lambda>rules. [rule \<leftarrow> rules. rule \<noteq> eps] @
                 concat (map (\<lambda>rule. map (\<lambda>i. take i rule @ drop (Suc i) rule)
                                        [i \<leftarrow> [0..<length rule]. [rule ! i] \<in> epsilon_non_terminals st])
                             rules))"
    by (rule ext) (simp add: extend_rules_eq generate_new_rules_eq [abs_def])
  then show ?thesis
    using items_remove_epsilon_productions [OF assms] by simp
qed

lemma subsets_example_found:
  "items (find_epsilon_productions subsets_example) =
     [([83], [ [65, 66], [65, 65]]), ([65], [ [949], [97]]), ([66], [ [949], [98]])]"
  "epsilon_non_terminals (find_epsilon_productions subsets_example) = {[65], [66]}"
  "productions (find_epsilon_productions subsets_example) = [([83], 0), ([65], 1), ([66], 2)]"
  "next_free (find_epsilon_productions subsets_example) = 3"
  by (simp_all add: subsets_example_def eval_defs insert_commute)

theorem remove_epsilon_productions_single_deletions_witness:
  "distinct (map fst (productions (find_epsilon_productions subsets_example))) \<and>
   list_all (\<lambda>a. a < next_free (find_epsilon_productions subsets_example))
     (map snd (productions (find_epsilon_productions subsets_example))) \<and>
   items (remove_epsilon subsets_example) =
     [([83], [ [65, 66], [65, 65], [66], [65], [65], [65]]), ([65], [ [97]]), ([66], [ [98]])]"
proof -
  have 1: "distinct (map fst (productions (find_epsilon_productions subsets_example)))"
    by (simp add: subsets_example_found)
  have 2: "\<forall>a \<in> snd ` set (productions (find_epsilon_productions subsets_example)).
      a < next_free (find_epsilon_productions subsets_example)"
    by (simp add: subsets_example_found)
  show ?thesis
    using 1 2 remove_epsilon_productions_single_deletions [OF 1 2]
    by (simp add: remove_epsilon_def subsets_example_found eps_def)
qed

text \<open>
  C5 (as stated) fails: for \<open>S -> AB | AA\<close> with \<open>A\<close> and \<open>B\<close> recorded, deleting both
  positions of \<open>AB\<close> is asked for by the specification and is not among the alternatives
  of \<open>S\<close>, which hold \<open>A\<close> three times.
\<close>

theorem subset_deletions_counterexample:
  "lookup (items (remove_epsilon subsets_example)) [83] =
     Some [ [65, 66], [65, 65], [66], [65], [65], [65]] \<and>
   [] \<in> spec_deletions (epsilon_non_terminals (find_epsilon_productions subsets_example)) [65, 66] \<and>
   [] \<notin> set [ [65, 66], [65, 65], [66], [65], [65], [65::nat]] \<and>
   \<not> distinct [ [65, 66], [65, 65], [66], [65], [65], [65::nat]]"
proof -
  have "lookup (items (remove_epsilon subsets_example)) [83] =
     Some [ [65, 66], [65, 65], [66], [65], [65], [65]]"
    by (simp add: subsets_example_def eval_defs)
  moreover have "[] \<in> spec_deletions {[65], [66]} [65, 66]"
    unfolding spec_deletions_def
    by (rule CollectI, rule exI [where x = "{0, 1}"]) (auto simp: nths_Cons less_Suc_eq)
  ultimately show ?thesis by (simp add: subsets_example_found)
qed

text \<open>
  C6: for \<open>S -> A, B -> A, A -> \<epsilon>\<close> the epsilon stage leaves the empty alternative in
  \<open>S\<close> and in \<open>B\<close>, and so does the whole of \<open>transform\<close>.
\<close>

theorem remove_epsilon_empty_alternative:
  "items (remove_epsilon empty_rhs_example) = [([83], [ [65], []]), ([66], [ [65], []]), ([65], [])] \<and>
   map_sum id items (transform islower empty_rhs_example) = Inr [([83], [ []]), ([66], [ []])]"
  by (simp add: empty_rhs_example_def eval_defs)


section \<open>PDA to CFG\<close>

lemma lookup_None_iff: "lookup d k = None \<longleftrightarrow> k \<notin> fst ` set d"
  by (induction d) (auto split: if_splits)

lemma lookup_append: "lookup (d @ e) k = (case lookup d k of None \<Rightarrow> lookup e k | Some v \<Rightarrow> Some v)"
  by (induction d) auto

lemma lookup_map_upd:
  "lookup (map (\<lambda>(k, rules). if k = L then (k, f rules) else (k, rules)) d) L' =
     (if L' = L then map_option f (lookup d L) else lookup d L')"
  by (induction d) auto

lemma lookup_add_production:
  "lookup (add_production L rhs prods) L' =
     (if L' = L then Some (alts prods L @ [rhs]) else lookup prods L')"
proof (cases "L \<in> fst ` set prods")
  case True
  then obtain rs where "lookup prods L = Some rs"
    using lookup_None_iff [of prods L] by (cases "lookup prods L") auto
  with True show ?thesis
    by (simp add: add_production_def lookup_map_upd alts_def)
next
  case False
  then have "lookup prods L = None" by (simp add: lookup_None_iff)
  with False show ?thesis
    by (simp add: add_production_def lookup_map_upd alts_def lookup_append split: option.splits)
qed

lemma alts_add_production:
  "alts (add_production L rhs prods) L' = alts prods L' @ (if L' = L then [rhs] else [])"
  by (simp add: alts_def [of "add_production L rhs prods"] lookup_add_production)
     (simp add: alts_def)

lemma no_empty_add_production: "no_empty prods \<Longrightarrow> no_empty (add_production L rhs prods)"
  by (simp add: no_empty_def lookup_add_production)

lemma inner_fold:
  "alts (fold (\<lambda>i acc. add_production L (f i) acc) is prods) L' =
     alts prods L' @ (if L' = L then map f is else [])"
  by (induction "is" arbitrary: prods) (simp_all add: alts_add_production)

lemma inner_no_empty:
  "no_empty prods \<Longrightarrow> no_empty (fold (\<lambda>i acc. add_production L (f i) acc) is prods)"
  by (induction "is" arbitrary: prods) (simp_all add: no_empty_add_production)

lemma alts_emit_one:
  "alts (emit_one p a X (r, w) prods) L' =
     alts prods L' @ (if L' = p @ X @ r then map (rhs_at p a r w) [0..<length w + 1] else [])"
  unfolding emit_one_def prod.case by (rule inner_fold)

lemma no_empty_emit_one:
  assumes "no_empty prods"
  shows "no_empty (emit_one p a X rw prods)"
proof -
  obtain r w where rw: "rw = (r, w)" by (cases rw)
  show ?thesis
    unfolding rw emit_one_def prod.case by (rule inner_no_empty [OF assms])
qed

lemma middle_fold:
  "alts (fold (emit_one p a X) nexts prods) L' =
     alts prods L' @
     concat (map (\<lambda>(r, w). if L' = p @ X @ r then map (rhs_at p a r w) [0..<length w + 1] else [])
               nexts)"
proof (induction nexts arbitrary: prods)
  case Nil
  then show ?case by simp
next
  case (Cons rw nexts)
  obtain r w where rw: "rw = (r, w)" by (cases rw)
  show ?case by (simp add: Cons.IH rw alts_emit_one)
qed

lemma middle_no_empty: "no_empty prods \<Longrightarrow> no_empty (fold (emit_one p a X) nexts prods)"
  by (induction nexts arbitrary: prods) (simp_all add: no_empty_emit_one)

lemma convert_productions_emit: "convert_productions tr prods = fold emit_all tr prods"
  unfolding convert_productions_def emit_all_def emit_one_def ..

lemma outer_fold: "alts (fold emit_all tr prods) L' = alts prods L' @ emitted tr L'"
proof (induction tr arbitrary: prods)
  case Nil
  then show ?case by (simp add: emitted_def)
next
  case (Cons t tr)
  obtain p a X nexts where t: "t = ((p, a, X), nexts)" by (cases t) auto
  have step: "emit_all t prods = fold (emit_one p a X) nexts prods"
    by (simp add: t emit_all_def)
  have "alts (fold emit_all (t # tr) prods) L' = alts (fold emit_all tr (emit_all t prods)) L'"
    by simp
  also have "\<dots> = alts (emit_all t prods) L' @ emitted tr L'"
    by (rule Cons.IH)
  also have "\<dots> = alts prods L' @ emitted (t # tr) L'"
    unfolding step by (simp add: middle_fold emitted_def t)
  finally show ?case .
qed

lemma outer_no_empty: "no_empty prods \<Longrightarrow> no_empty (fold emit_all tr prods)"
proof (induction tr arbitrary: prods)
  case Nil
  then show ?case by simp
next
  case (Cons t tr)
  obtain p a X nexts where t: "t = ((p, a, X), nexts)" by (cases t) auto
  have "emit_all t prods = fold (emit_one p a X) nexts prods"
    by (simp add: t emit_all_def)
  then have "no_empty (emit_all t prods)"
    using Cons.prems by (simp add: middle_no_empty)
  then have "no_empty (fold emit_all tr (emit_all t prods))"
    by (rule Cons.IH)
  then show ?case by simp
qed

lemma lookup_alts: "no_empty prods \<Longrightarrow> lookup prods L = (if alts prods L = [] then None else Some (alts prods L))"
  by (cases "lookup prods L") (auto simp: alts_def no_empty_def)

text \<open>
  C2 (as the code has it): the alternatives stored under a left-hand side \<open>L\<close> are, in the
  order of the transitions, for every transition \<open>(p, a, X) -> (r, w)\<close> whose name
  \<open>p X r\<close> is \<open>L\<close>, the \<open>len(w) + 1\<close> strings \<open>a' p w[:i] r\<close> for \<open>i < len(w)\<close> and \<open>a'\<close>
  last, where \<open>a'\<close> is \<open>a\<close>, or the empty string when \<open>a\<close> is the marker.  The state set
  plays no part.
\<close>

theorem convert_productions_per_transition:
  "lookup (cfg_productions (convert (PDAtoCFG_init sts ia sa tr s0 z0 f))) L =
     (let rhss = concat (map (\<lambda>((p, a, X), next_states).
                   concat (map (\<lambda>(r, w).
                     if L = p @ X @ r
                     then map (\<lambda>i. (if a \<noteq> eps then a else []) @
                                    (if i < length w then p @ take i w @ r else []))
                            [0..<length w + 1]
                     else []) next_states)) tr)
      in if rhss = [] then None else Some rhss)"
proof -
  have ne: "no_empty (convert_productions tr [])"
    unfolding convert_productions_emit by (rule outer_no_empty) (simp add: no_empty_def)
  have a: "alts (convert_productions tr []) L = emitted tr L"
    unfolding convert_productions_emit by (simp add: outer_fold) (simp add: alts_def)
  have r: "\<And>p a r w. rhs_at p a r w = (\<lambda>i. (if a \<noteq> eps then a else []) @
                                    (if i < length w then p @ take i w @ r else []))"
    by (rule ext) (simp add: rhs_at_def)
  have c: "cfg_productions (convert (PDAtoCFG_init sts ia sa tr s0 z0 f)) =
      convert_productions tr []"
    by (simp add: convert_def PDAtoCFG_init_def)
  have "lookup (convert_productions tr []) L =
      (if emitted tr L = [] then None else Some (emitted tr L))"
    using lookup_alts [OF ne, of L] unfolding a .
  then show ?thesis
    unfolding c Let_def emitted_def r .
qed

lemma push_example_run:
  "cfg_productions (convert push_example) =
     [([113, 48, 90, 113, 49], [ [97, 113, 48, 113, 49], [97]])]"
  by (simp add: push_example_def convert_def convert_productions_def PDAtoCFG_init_def
        add_production_def rhs_at_def py_simps eps_def)

theorem convert_productions_per_transition_witness:
  "lookup (cfg_productions (convert push_example)) (py ''q0Zq1'') = Some [py ''aq0q1'', py ''a''] \<and>
   lookup (cfg_productions (convert push_example)) (py ''q0Zq0'') = None"
  unfolding push_example_def
  by (simp add: convert_productions_per_transition) (simp add: py_simps eps_def)

text \<open>
  C2 (as stated) fails for a single push: with states \<open>q0, q1\<close> and the transition
  \<open>(q0, a, Z) -> (q1, X)\<close> there is no production \<open>[q0, Z, q] -> a [q1, X, q]\<close> for
  \<open>q = q0\<close>; the only left-hand side is \<open>q0Zq1\<close>.
\<close>

theorem state_enumeration_counterexample:
  "\<not> (\<forall>q \<in> states push_example.
        \<exists>rules. lookup (cfg_productions (convert push_example)) (py ''q0'' @ py ''Z'' @ q) = Some rules \<and>
          py ''a'' @ spec_body (py ''q1'') [py ''X''] [q] \<in> set rules)"
proof -
  have "py ''q0'' \<in> states push_example"
    by (simp add: push_example_def PDAtoCFG_init_def)
  moreover have "lookup (cfg_productions (convert push_example)) (py ''q0'' @ py ''Z'' @ py ''q0'') = None"
    by (simp add: push_example_run py_simps)
  ultimately show ?thesis by (metis option.distinct(1))
qed


section \<open>Useless symbols\<close>

lemma fold_insert_if:
  "fold (\<lambda>rule U'. if Q rule then insert nt U' else U') rules U =
     (if \<exists>rule \<in> set rules. Q rule then insert nt U else U)"
  by (induction rules arbitrary: U) auto

lemma fold_items_insert_if:
  "fold (\<lambda>(non_terminal, rules) U. if \<exists>rule \<in> set rules. Q rule then insert non_terminal U else U)
      its U0 =
     U0 \<union> {nt. \<exists>rules. (nt, rules) \<in> set its \<and> (\<exists>rule \<in> set rules. Q rule)}"
proof (induction its arbitrary: U0)
  case Nil
  then show ?case by simp
next
  case (Cons it its)
  obtain nt rules where it: "it = (nt, rules)" by (cases it)
  have "fold (\<lambda>(non_terminal, rules) U. if \<exists>rule \<in> set rules. Q rule then insert non_terminal U else U)
          (it # its) U0 =
        (if \<exists>rule \<in> set rules. Q rule then insert nt U0 else U0) \<union>
          {nt. \<exists>rules. (nt, rules) \<in> set its \<and> (\<exists>rule \<in> set rules. Q rule)}"
    unfolding it by (simp only: fold_simps Cons.IH prod.case comp_def)
  also have "\<dots> = U0 \<union> {n. \<exists>rs. (n, rs) \<in> set ((nt, rules) # its) \<and> (\<exists>rule \<in> set rs. Q rule)}"
    by auto
  finally show ?case unfolding it .
qed

lemma useful_symbols_find:
  "useful_symbols (find_useful_symbols islower st) =
     useful_symbols st \<union>
     {nt. \<exists>rules. (nt, rules) \<in> set (items st) \<and>
        (\<exists>rule \<in> set rules. list_all (\<lambda>symbol. islower symbol \<or> [symbol] \<in> non_terminals st) rule)}"
  by (simp add: find_useful_symbols_def fold_insert_if fold_items_insert_if)

lemma items_remove_useless_symbols:
  "items (remove_useless_symbols islower st) =
     [(nt, rules) \<leftarrow> items st. nt \<in> useful_symbols (find_useful_symbols islower st)]"
proof -
  have "productions (find_useful_symbols islower st) = productions st"
    and "cells (find_useful_symbols islower st) = cells st"
    by (simp_all add: find_useful_symbols_def)
  then show ?thesis
    by (simp add: items_def remove_useless_symbols_def Let_def filter_map comp_def case_prod_unfold)
qed

lemma distinct_items: "distinct (map fst (items st)) = distinct (map fst (productions st))"
  by (simp add: items_def comp_def case_prod_unfold)

lemma items_remove_useless_symbols_distinct:
  assumes "distinct (map fst (productions st))" and "useful_symbols st = {}"
  shows "items (remove_useless_symbols islower st) =
     [(nt, rules) \<leftarrow> items st.
        \<exists>rule \<in> set rules. \<forall>symbol \<in> set rule. islower symbol \<or> [symbol] \<in> non_terminals st]"
proof -
  have d: "distinct (map fst (items st))" using assms(1) by (simp add: distinct_items)
  have "filter (\<lambda>(nt, rules). nt \<in> useful_symbols (find_useful_symbols islower st)) (items st) =
        filter (\<lambda>(nt, rules). \<exists>rule \<in> set rules. \<forall>symbol \<in> set rule.
                   islower symbol \<or> [symbol] \<in> non_terminals st) (items st)"
  proof (rule filter_cong [OF refl])
    fix x assume x: "x \<in> set (items st)"
    obtain nt rules where nr: "x = (nt, rules)" by (cases x)
    have uniq: "rules' = rules" if "(nt, rules') \<in> set (items st)" for rules'
      using eq_key_imp_eq_value [OF d that] x nr by simp
    let ?Q = "\<lambda>rules. \<exists>rule \<in> set rules. \<forall>symbol \<in> set rule.
                   islower symbol \<or> [symbol] \<in> non_terminals st"
    have u: "nt \<in> useful_symbols (find_useful_symbols islower st) \<longleftrightarrow>
        (\<exists>rules'. (nt, rules') \<in> set (items st) \<and> ?Q rules')"
      by (simp add: useful_symbols_find assms(2) list_all_iff)
    have "(\<exists>rules'. (nt, rules') \<in> set (items st) \<and> ?Q rules') \<longleftrightarrow> ?Q rules"
    proof
      assume "\<exists>rules'. (nt, rules') \<in> set (items st) \<and> ?Q rules'"
      then obtain rules' where m: "(nt, rules') \<in> set (items st)" and q: "?Q rules'" by blast
      from m have "rules' = rules" by (rule uniq)
      with q show "?Q rules" by simp
    next
      assume "?Q rules"
      with x nr show "\<exists>rules'. (nt, rules') \<in> set (items st) \<and> ?Q rules'" by blast
    qed
    with u show "(case x of (nt, rules) \<Rightarrow> nt \<in> useful_symbols (find_useful_symbols islower st)) =
        (case x of (nt, rules) \<Rightarrow> \<exists>rule \<in> set rules. \<forall>symbol \<in> set rule.
                   islower symbol \<or> [symbol] \<in> non_terminals st)"
      unfolding nr prod.case by simp
  qed
  then show ?thesis by (simp add: items_remove_useless_symbols)
qed

text \<open>
  C3 (as the code has it): on a dictionary with distinct keys and nothing yet recorded as
  useful, the pruning stage keeps, in order and with their lists as they are, exactly the
  nonterminals that have an alternative every character of which is lower case or is a
  one-character key of the grammar the object was built from.  No start symbol, no
  reachability and no fixpoint take part; whether a character is a terminal is read off
  its casing.
\<close>

theorem remove_useless_symbols_casing:
  assumes "distinct (map fst (productions st))" and "useful_symbols st = {}"
  shows "items (remove_useless_symbols islower st) =
     [(nt, rules) \<leftarrow> items st.
        \<exists>rule \<in> set rules. \<forall>symbol \<in> set rule. islower symbol \<or> [symbol] \<in> non_terminals st]"
  using assms by (rule items_remove_useless_symbols_distinct)

lemma useless_example_items:
  "items useless_example =
     [([83], [ [97, 88], [97]]), ([88], [ [97, 88]]), ([89], [ [98]]), ([87], [ [68]])]"
  "non_terminals useless_example = {[83], [88], [89], [87]}"
  "useful_symbols useless_example = {}"
  "productions useless_example = [([83], 0), ([88], 1), ([89], 2), ([87], 3)]"
  by (simp_all add: useless_example_def CFG_init_def items_def py_simps)

theorem remove_useless_symbols_casing_witness:
  "distinct (map fst (productions useless_example)) \<and> useful_symbols useless_example = {} \<and>
   items (remove_useless_symbols py_islower useless_example) =
     [([83], [ [97, 88], [97]]), ([88], [ [97, 88]]), ([89], [ [98]])]"
proof -
  have 1: "distinct (map fst (productions useless_example))"
    by (simp add: useless_example_items)
  have 2: "useful_symbols useless_example = {}"
    by (simp add: useless_example_items)
  show ?thesis
    using 1 2 remove_useless_symbols_casing [OF 1 2, of py_islower]
    by (simp add: useless_example_items py_islower_def)
qed

lemma useless_example_pruned:
  "items (remove_useless_symbols py_islower useless_example) =
     [([83], [ [97, 88], [97]]), ([88], [ [97, 88]]), ([89], [ [98]])]"
  by (simp add: items_remove_useless_symbols useful_symbols_find useless_example_items
        py_islower_def)

text \<open>
  C3 (as stated) fails: in \<open>S -> aX | a, X -> aX, Y -> b, W -> D\<close> the stage keeps \<open>X\<close>,
  which derives no terminal string, and \<open>Y\<close>, which \<open>S\<close> does not reach.
\<close>

theorem prune_useless_counterexample:
  "map fst (items (remove_useless_symbols py_islower useless_example)) = [py ''S'', py ''X'', py ''Y''] \<and>
   \<not> spec_generating (items (remove_useless_symbols py_islower useless_example)) (py ''X'') \<and>
   \<not> spec_reachable (items (remove_useless_symbols py_islower useless_example)) (py ''S'') (py ''Y'')"
proof -
  let ?g = "[([83], [ [97, 88], [97]]), ([88], [ [97, 88]]), ([89::nat], [ [98::nat]])]"
  have gen: "A \<noteq> [88]" if "spec_generating ?g A" for A
    using that
  proof (induction rule: spec_generating.induct)
    case (1 A rules rule)
    show ?case
    proof
      assume "A = [88]"
      with 1 have "rule = [97, 88]" by auto
      with 1(3) show False by simp
    qed
  qed
  have reach: "A \<in> {[83], [88], [97]}" if "spec_reachable ?g [83] A" for A
    using that by (induction rule: spec_reachable.induct) auto
  have "\<not> spec_generating ?g [88]" using gen by blast
  moreover have "\<not> spec_reachable ?g [83] [89]" using reach by fastforce
  ultimately show ?thesis
    by (simp add: useless_example_pruned py_simps)
qed


section \<open>Unit productions\<close>

lemma lookup_Some_iff: "distinct (map fst d) \<Longrightarrow> lookup d k = Some v \<longleftrightarrow> (k, v) \<in> set d"
proof (induction d)
  case Nil
  then show ?case by simp
next
  case (Cons p d)
  obtain k' v' where p: "p = (k', v')" by (cases p)
  from Cons.prems p have fresh: "\<And>v. (k', v) \<notin> set d" and d: "distinct (map fst d)"
    by (auto simp: image_iff)
  show ?case
  proof (cases "k' = k")
    case True
    with fresh show ?thesis by (auto simp: p)
  next
    case False
    with Cons.IH [OF d] show ?thesis by (simp add: p)
  qed
qed

lemma same_addr_same_key:
  "distinct (map snd d) \<Longrightarrow> (A, a) \<in> set d \<Longrightarrow> (A', a) \<in> set d \<Longrightarrow> A = A'"
  by (induction d) (auto simp: image_iff)

lemma substitute_step_Inr:
  assumes "(A, a) \<in> set d" and "(r, b) \<in> set d" and "distinct (map fst d)" and "r \<in> set (h a)"
  shows "substitute_step d (A, r) h = Inr (substituted h a r b)"
proof -
  have "lookup d A = Some a" and "lookup d r = Some b"
    using assms by (simp_all add: lookup_Some_iff)
  then show ?thesis
    using assms(4) by (simp add: substitute_step_def list_remove_def substituted_def Let_def)
qed

lemma substitute_step_inv:
  assumes dk: "distinct (map fst d)" and da: "distinct (map snd d)"
    and inv: "unit_inv d h ((A, r) # ps)"
  shows "\<exists>a b. (A, a) \<in> set d \<and> (r, b) \<in> set d \<and> r \<in> set (h a) \<and>
           substitute_step d (A, r) h = Inr (substituted h a r b) \<and>
           unit_inv d (substituted h a r b) ps"
proof -
  from inv obtain a b where a: "(A, a) \<in> set d" and b: "(r, b) \<in> set d"
    by (auto simp: unit_inv_def)
  from inv a have sub: "mset (pending ((A, r) # ps) A) \<subseteq># mset (h a)"
    by (auto simp: unit_inv_def)
  have pA: "pending ((A, r) # ps) A = r # pending ps A"
    by (simp add: pending_def)
  from sub have r: "r \<in> set (h a)" and rest: "mset (pending ps A) \<subseteq># mset (remove1 r (h a))"
    unfolding pA by (simp_all add: insert_subset_eq_iff)
  let ?h' = "substituted h a r b"
  have ha: "?h' a = remove1 r (h a) @ (h(a := remove1 r (h a))) b"
    by (simp add: substituted_def)
  have hother: "?h' a' = h a'" if "a' \<noteq> a" for a'
    using that by (simp add: substituted_def)
  have keys: "\<forall>p \<in> set ps. fst p \<in> fst ` set d \<and> snd p \<in> fst ` set d"
    using inv by (simp add: unit_inv_def)
  have lists: "mset (pending ps A') \<subseteq># mset (?h' a')" if m: "(A', a') \<in> set d" for A' a'
  proof (cases "a' = a")
    case True
    with m a da have "A' = A" by (meson same_addr_same_key)
    have "mset (remove1 r (h a)) \<subseteq># mset (?h' a)"
      unfolding ha by simp
    with rest show ?thesis
      unfolding True \<open>A' = A\<close> by (rule subset_mset.order_trans)
  next
    case False
    with m a dk have "A' \<noteq> A" by (meson eq_key_imp_eq_value)
    then have "pending ps A' = pending ((A, r) # ps) A'"
      by (simp add: pending_def)
    moreover from inv m have "mset (pending ((A, r) # ps) A') \<subseteq># mset (h a')"
      by (auto simp: unit_inv_def)
    ultimately show ?thesis by (simp add: hother [OF False])
  qed
  have "unit_inv d ?h' ps"
    unfolding unit_inv_def using keys lists by blast
  with a b r substitute_step_Inr [where h = h, OF a b dk r] show ?thesis by blast
qed

lemma substitute_loop_Inr:
  assumes "distinct (map fst d)" and "distinct (map snd d)" and "unit_inv d h ps"
  shows "\<exists>h'. substitute_loop d ps h = Inr h'"
  using assms(3)
proof (induction ps arbitrary: h)
  case Nil
  then show ?case by simp
next
  case (Cons p ps)
  obtain A r where p: "p = (A, r)" by (cases p)
  from substitute_step_inv [OF assms(1,2) Cons.prems [unfolded p]]
  obtain a b where s: "substitute_step d (A, r) h = Inr (substituted h a r b)"
    and i: "unit_inv d (substituted h a r b) ps" by blast
  from Cons.IH [OF i] show ?case by (simp add: p s)
qed

lemma fold_units_rules:
  "fold (\<lambda>rule units'. if Q rule then units' @ [(nt, rule)] else units') rules units =
     units @ map (Pair nt) (filter Q rules)"
  by (induction rules arbitrary: units) simp_all

lemma fold_units_items:
  "fold (\<lambda>(non_terminal, rules) units. units @ map (Pair non_terminal) (filter Q rules)) its units0 =
     units0 @ concat (map (\<lambda>(nt, rules). map (Pair nt) (filter Q rules)) its)"
proof (induction its arbitrary: units0)
  case Nil
  then show ?case by simp
next
  case (Cons it its)
  obtain nt rules where it: "it = (nt, rules)" by (cases it)
  show ?case unfolding it by (simp only: fold_simps Cons.IH prod.case comp_def) simp
qed

lemma unit_productions_find:
  "unit_productions (find_unit_productions st) =
     unit_productions st @ recorded (non_terminals st) (items st)"
  by (simp add: find_unit_productions_def fold_units_rules fold_units_items recorded_def)

lemma find_unit_productions_fields:
  "cells (find_unit_productions st) = cells st"
  "productions (find_unit_productions st) = productions st"
  "non_terminals (find_unit_productions st) = non_terminals st"
  "next_free (find_unit_productions st) = next_free st"
  by (simp_all add: find_unit_productions_def)

lemma pending_recorded_notin:
  "A \<notin> fst ` set its \<Longrightarrow> pending (recorded N its) A = []"
  by (induction its) (auto simp: recorded_def pending_def filter_empty_conv)

lemma pending_recorded:
  assumes "distinct (map fst its)" and "(A, rules) \<in> set its"
  shows "pending (recorded N its) A = filter (\<lambda>rule. rule \<in> N) rules"
  using assms
proof (induction its)
  case Nil
  then show ?case by simp
next
  case (Cons it its)
  obtain nt rs where it: "it = (nt, rs)" by (cases it)
  have split: "pending (recorded N (it # its)) A =
      (if nt = A then filter (\<lambda>rule. rule \<in> N) rs else []) @ pending (recorded N its) A"
    by (simp add: it recorded_def pending_def comp_def filter_empty_conv)
  show ?case
  proof (cases "nt = A")
    case True
    with Cons.prems it have "rs = rules" and "A \<notin> fst ` set its"
      by (auto simp: image_iff)
    then show ?thesis
      using True by (simp add: split pending_recorded_notin)
  next
    case False
    with Cons.prems it have "(A, rules) \<in> set its" and "distinct (map fst its)" by auto
    with Cons.IH False show ?thesis by (simp add: split)
  qed
qed

lemma recorded_keys:
  "p \<in> set (recorded N its) \<Longrightarrow> fst p \<in> fst ` set its \<and> snd p \<in> N"
  by (induction its) (auto simp: recorded_def)

lemma unit_inv_recorded:
  assumes "distinct (map fst d)" and "N \<subseteq> fst ` set d"
  shows "unit_inv d h (recorded N (map (\<lambda>(nt, a). (nt, h a)) d))"
proof -
  let ?its = "map (\<lambda>(nt, a). (nt, h a)) d"
  have k: "fst ` set ?its = fst ` set d" by (simp add: image_image case_prod_unfold)
  have di: "distinct (map fst ?its)" using assms(1) by (simp add: comp_def case_prod_unfold)
  have 1: "\<forall>p \<in> set (recorded N ?its). fst p \<in> fst ` set d \<and> snd p \<in> fst ` set d"
    using recorded_keys [of _ N ?its] assms(2) unfolding k by blast
  have 2: "mset (pending (recorded N ?its) A) \<subseteq># mset (h a)" if "(A, a) \<in> set d" for A a
  proof -
    from that have "(A, h a) \<in> set ?its" by force
    from pending_recorded [OF di this] show ?thesis by simp
  qed
  show ?thesis unfolding unit_inv_def using 1 2 by blast
qed

lemma remove_unit_productions_Inr:
  assumes "distinct (map fst (productions st))" and "distinct (map snd (productions st))"
    and "non_terminals st \<subseteq> fst ` set (productions st)" and "unit_productions st = []"
  shows "\<exists>h'. remove_unit_productions st = Inr ((find_unit_productions st)\<lparr>cells := h'\<rparr>)"
proof -
  have "unit_inv (productions st) (cells st) (unit_productions (find_unit_productions st))"
    using unit_inv_recorded [OF assms(1,3), of "cells st"]
    by (simp add: unit_productions_find assms(4) items_def)
  from substitute_loop_Inr [OF assms(1,2) this]
  obtain h' where "substitute_loop (productions st) (unit_productions (find_unit_productions st))
      (cells st) = Inr h'" ..
  then have "remove_unit_productions st = Inr ((find_unit_productions st)\<lparr>cells := h'\<rparr>)"
    by (simp add: remove_unit_productions_def substitute_unit_productions_def
          find_unit_productions_fields)
  then show ?thesis by blast
qed

text \<open>
  C10 (as the code has it): for a dictionary (distinct keys) in which every nonterminal
  has a list object of its own (no list object stands under two keys), the unit stage of
  a fresh object raises nothing: each recorded pair \<open>(A, B)\<close> finds \<open>B\<close> among the keys
  and still finds \<open>B\<close> in the list of \<open>A\<close> when it removes it, whatever the order, with
  duplicates and with self-units.
\<close>

theorem remove_unit_productions_total:
  assumes "distinct (map fst g)" and "distinct (map snd g)"
  shows "\<exists>st'. remove_unit_productions (CFG_init h n g) = Inr st'"
proof -
  have "\<exists>h'. remove_unit_productions (CFG_init h n g) =
      Inr ((find_unit_productions (CFG_init h n g))\<lparr>cells := h'\<rparr>)"
    by (rule remove_unit_productions_Inr) (simp_all add: CFG_init_def assms)
  then show ?thesis by blast
qed

theorem remove_unit_productions_total_witness:
  "distinct (map fst (productions self_unit_example)) \<and>
   distinct (map snd (productions self_unit_example)) \<and>
   (\<exists>st'. remove_unit_productions self_unit_example = Inr st')"
proof -
  let ?g = "[(py ''A'', 0::nat), (py ''B'', 1)]"
  have 1: "distinct (map fst ?g)" by (simp add: py_simps)
  have 2: "distinct (map snd ?g)" by simp
  show ?thesis
    using 1 2 remove_unit_productions_total [OF 1 2]
    by (simp add: self_unit_example_def) (simp add: CFG_init_def)
qed

text \<open>
  C10 (as stated) fails: a dictionary may hold one list object under two keys.  For
  \<open>l = ['A', 'B']\<close> under both \<open>A\<close> and \<open>B\<close> the substitutions for \<open>A\<close> consume the units
  recorded for \<open>B\<close>, and at the pair \<open>(B, A)\<close> the list is \<open>['B', 'B']\<close>: \<open>list.remove\<close>
  raises \<open>ValueError\<close>.
\<close>

theorem shared_list_counterexample:
  "distinct (map fst (productions shared_list_example)) \<and>
   remove_unit_productions shared_list_example = Inl (ValueError (py ''A''))"
  by (simp add: shared_list_example_def eval_defs)

text \<open>
  The same hypothesis is needed when there are no chains: with \<open>l = ['C', 'a']\<close> under
  both \<open>A\<close> and \<open>B\<close> and \<open>C -> d\<close>, the pair \<open>(A, C)\<close> takes \<open>C\<close> out of the shared list
  and the pair \<open>(B, C)\<close> no longer finds it.
\<close>

lemma shared_no_chain_raises:
  "remove_unit_productions shared_no_chain_example = Inl (ValueError (py ''C''))"
  by (simp add: shared_no_chain_example_def eval_defs)

lemma pending_Cons: "pending ((A, r) # ps) A' = (if A = A' then r # pending ps A' else pending ps A')"
  by (simp add: pending_def)

lemma pending_Nil_tail: "pending (p # ps) B = [] \<Longrightarrow> pending ps B = []"
  by (cases p) (simp add: pending_Cons split: if_splits)

lemma substitute_step_inv2:
  assumes dk: "distinct (map fst d)" and da: "distinct (map snd d)"
    and inv: "unit_inv2 d N h ((A, r) # ps)"
  shows "\<exists>a b. (A, a) \<in> set d \<and> (r, b) \<in> set d \<and> b \<noteq> a \<and>
           substitute_step d (A, r) h = Inr (substituted h a r b) \<and>
           unit_inv2 d N (substituted h a r b) ps"
proof -
  from inv obtain a b where a: "(A, a) \<in> set d" and b: "(r, b) \<in> set d"
    by (auto simp: unit_inv2_def)
  from inv have rN: "r \<in> N" and pr: "pending ((A, r) # ps) r = []"
    by (auto simp: unit_inv2_def)
  from pr have "r \<noteq> A" by (auto simp: pending_Cons)
  with a b da have ab: "b \<noteq> a" by (meson same_addr_same_key)
  from inv a have ua: "mset (filter (\<lambda>rule. rule \<in> N) (h a)) = mset (pending ((A, r) # ps) A)"
    by (auto simp: unit_inv2_def)
  from inv b have "mset (filter (\<lambda>rule. rule \<in> N) (h b)) = mset (pending ((A, r) # ps) r)"
    by (auto simp: unit_inv2_def)
  with pr have ub: "filter (\<lambda>rule. rule \<in> N) (h b) = []" by simp
  from ua have "r \<in># mset (filter (\<lambda>rule. rule \<in> N) (h a))"
    by (simp add: pending_Cons)
  then have r: "r \<in> set (h a)" by simp
  let ?h' = "substituted h a r b"
  have ha: "?h' a = remove1 r (h a) @ h b"
    using ab by (simp add: substituted_def)
  have hother: "?h' a' = h a'" if "a' \<noteq> a" for a'
    using that by (simp add: substituted_def)
  have "mset (filter (\<lambda>rule. rule \<in> N) (?h' a)) =
      mset (filter (\<lambda>rule. rule \<in> N) (h a)) - {#r#}"
    unfolding ha using ub rN by simp
  also have "\<dots> = mset (pending ps A)"
    unfolding ua by (simp add: pending_Cons)
  finally have na: "mset (filter (\<lambda>rule. rule \<in> N) (?h' a)) = mset (pending ps A)" .
  have pairs: "\<forall>p \<in> set ps. fst p \<in> fst ` set d \<and> snd p \<in> fst ` set d \<and> snd p \<in> N \<and>
      pending ps (snd p) = []"
  proof
    fix p assume p: "p \<in> set ps"
    with inv have "fst p \<in> fst ` set d \<and> snd p \<in> fst ` set d \<and> snd p \<in> N"
      and "pending ((A, r) # ps) (snd p) = []"
      by (simp_all add: unit_inv2_def)
    then show "fst p \<in> fst ` set d \<and> snd p \<in> fst ` set d \<and> snd p \<in> N \<and>
      pending ps (snd p) = []"
      by (simp add: pending_Cons split: if_splits)
  qed
  have lists: "mset (filter (\<lambda>rule. rule \<in> N) (?h' a')) = mset (pending ps A')"
    if m: "(A', a') \<in> set d" for A' a'
  proof (cases "a' = a")
    case True
    with m a da have "A' = A" by (meson same_addr_same_key)
    with na True show ?thesis by simp
  next
    case False
    with m a dk have "A' \<noteq> A" by (meson eq_key_imp_eq_value)
    then have "pending ps A' = pending ((A, r) # ps) A'"
      by (simp add: pending_Cons)
    moreover from inv m have
      "mset (filter (\<lambda>rule. rule \<in> N) (h a')) = mset (pending ((A, r) # ps) A')"
      by (auto simp: unit_inv2_def)
    ultimately show ?thesis by (simp add: hother [OF False])
  qed
  have "unit_inv2 d N ?h' ps"
    unfolding unit_inv2_def using pairs lists by blast
  with a b ab substitute_step_Inr [where h = h, OF a b dk r] show ?thesis by blast
qed

lemma recorded_mem:
  "p \<in> set (recorded N its) \<Longrightarrow> \<exists>rules. (fst p, rules) \<in> set its \<and> snd p \<in> set rules \<and> snd p \<in> N"
  by (induction its) (auto simp: recorded_def)


lemma unit_inv2_recorded:
  assumes dk: "distinct (map fst d)" and N: "N \<subseteq> fst ` set d"
    and nc: "\<forall>(A, a) \<in> set d. \<forall>r \<in> set (h a). r \<in> N \<longrightarrow>
               (\<forall>(B, b) \<in> set d. B = r \<longrightarrow> (\<forall>r' \<in> set (h b). r' \<notin> N))"
  shows "unit_inv2 d N h (recorded N (map (\<lambda>(nt, a). (nt, h a)) d))"
proof -
  let ?its = "map (\<lambda>(nt, a). (nt, h a)) d"
  let ?ps = "recorded N ?its"
  have k: "fst ` set ?its = fst ` set d" by (simp add: image_image case_prod_unfold)
  have di: "distinct (map fst ?its)" using dk by (simp add: comp_def case_prod_unfold)
  have pend: "pending ?ps A = filter (\<lambda>rule. rule \<in> N) (h a)" if "(A, a) \<in> set d" for A a
  proof -
    from that have "(A, h a) \<in> set ?its" by force
    from pending_recorded [OF di this] show ?thesis .
  qed
  have pairs: "fst p \<in> fst ` set d \<and> snd p \<in> fst ` set d \<and> snd p \<in> N \<and> pending ?ps (snd p) = []"
    if p: "p \<in> set ?ps" for p
  proof -
    from recorded_keys [OF p] N have 1: "fst p \<in> fst ` set d" and 2: "snd p \<in> N"
      and 3: "snd p \<in> fst ` set d"
      unfolding k by auto
    from recorded_mem [OF p] obtain rules where "(fst p, rules) \<in> set ?its" and m: "snd p \<in> set rules"
      by blast
    then obtain a where a: "(fst p, a) \<in> set d" and rules: "rules = h a" by auto
    from 3 obtain b where b: "(snd p, b) \<in> set d" by auto
    from nc a b m 2 have "\<forall>r' \<in> set (h b). r' \<notin> N"
      unfolding rules by blast
    then have "filter (\<lambda>rule. rule \<in> N) (h b) = []" by (simp add: filter_empty_conv)
    with pend [OF b] 1 2 3 show ?thesis by simp
  qed
  show ?thesis
    unfolding unit_inv2_def using pairs pend by auto
qed

lemma filter_remove1_other: "\<not> P r \<Longrightarrow> filter P (remove1 r xs) = filter P xs"
  by (induction xs) auto

lemma filter_none_other: "filter P xs = [] \<Longrightarrow> filter (\<lambda>x. \<not> P x) xs = xs"
  by (induction xs) (auto split: if_splits)

lemma pending_Nil: "pending [] A = []"
  by (simp add: pending_def)

lemma pending_append: "pending (ps @ qs) A = pending ps A @ pending qs A"
  by (simp add: pending_def)

lemma substitute_step_inv3:
  assumes dk: "distinct (map fst d)" and da: "distinct (map snd d)"
    and inv2: "unit_inv2 d N h ((A, r) # ps)"
    and inv3: "unit_inv3 d N h0 h dn"
    and F1: "\<forall>(B, b) \<in> set d. pending (dn @ (A, r) # ps) B = filter (\<lambda>rule. rule \<in> N) (h0 b)"
    and F2: "\<forall>p \<in> set (dn @ (A, r) # ps). pending (dn @ (A, r) # ps) (snd p) = []"
  shows "\<exists>h'. substitute_step d (A, r) h = Inr h' \<and> unit_inv2 d N h' ps \<and>
           unit_inv3 d N h0 h' (dn @ [(A, r)])"
proof -
  from substitute_step_inv2 [OF dk da inv2]
  obtain a b where a: "(A, a) \<in> set d" and b: "(r, b) \<in> set d" and ab: "b \<noteq> a"
    and s: "substitute_step d (A, r) h = Inr (substituted h a r b)"
    and i2: "unit_inv2 d N (substituted h a r b) ps"
    by blast
  let ?h' = "substituted h a r b"
  from inv2 have rN: "r \<in> N" by (simp add: unit_inv2_def)
  have "pending (dn @ (A, r) # ps) r = []" using F2 by simp
  with F1 b have tb: "filter (\<lambda>rule. rule \<in> N) (h0 b) = []" by force
  with inv3 b have hb: "h b = h0 b" by (auto simp: unit_inv3_def)
  from tb have fb: "filter (\<lambda>rule. rule \<notin> N) (h0 b) = h0 b" by (rule filter_none_other)
  have ha: "?h' a = remove1 r (h a) @ h0 b"
    using ab hb by (simp add: substituted_def)
  have hother: "?h' a' = h a'" if "a' \<noteq> a" for a'
    using that by (simp add: substituted_def)
  have lb: "lookup d r = Some b" using b dk by (simp add: lookup_Some_iff)
  have sa: "filter (\<lambda>rule. rule \<in> N) (h0 a) \<noteq> []"
  proof -
    from F1 a have "pending (dn @ (A, r) # ps) A = filter (\<lambda>rule. rule \<in> N) (h0 a)" by force
    then show ?thesis by (auto simp: pending_append pending_Cons)
  qed
  have J2: "filter (\<lambda>rule. rule \<notin> N) (?h' a') =
        filter (\<lambda>rule. rule \<notin> N) (h0 a') @
        concat (map (target_list d h0) (pending (dn @ [(A, r)]) A'))"
    if m: "(A', a') \<in> set d" for A' a'
  proof (cases "a' = a")
    case True
    with m a da have AA: "A' = A" by (meson same_addr_same_key)
    from inv3 a have "filter (\<lambda>rule. rule \<notin> N) (h a) =
        filter (\<lambda>rule. rule \<notin> N) (h0 a) @ concat (map (target_list d h0) (pending dn A))"
      by (auto simp: unit_inv3_def)
    then show ?thesis
      unfolding True AA ha using rN
      by (simp add: filter_remove1_other fb pending_append pending_Cons pending_Nil
            target_list_def lb)
  next
    case False
    with m a dk have "A' \<noteq> A" by (meson eq_key_imp_eq_value)
    then have "pending (dn @ [(A, r)]) A' = pending dn A'"
      by (simp add: pending_append pending_Cons pending_Nil)
    moreover from inv3 m have "filter (\<lambda>rule. rule \<notin> N) (h a') =
        filter (\<lambda>rule. rule \<notin> N) (h0 a') @ concat (map (target_list d h0) (pending dn A'))"
      by (auto simp: unit_inv3_def)
    ultimately show ?thesis by (simp add: hother [OF False])
  qed
  have J3: "?h' b' = h0 b'" if m: "(B, b') \<in> set d" and e: "filter (\<lambda>rule. rule \<in> N) (h0 b') = []"
    for B b'
  proof -
    from e sa have "b' \<noteq> a" by auto
    moreover from inv3 m e have "h b' = h0 b'" by (auto simp: unit_inv3_def)
    ultimately show ?thesis by (simp add: hother)
  qed
  have "unit_inv3 d N h0 ?h' (dn @ [(A, r)])"
    unfolding unit_inv3_def using J2 J3 by blast
  with s i2 show ?thesis by blast
qed

lemma substitute_loop_lists:
  assumes dk: "distinct (map fst d)" and da: "distinct (map snd d)"
  shows "unit_inv2 d N h ps \<Longrightarrow> unit_inv3 d N h0 h dn \<Longrightarrow>
         \<forall>(A, a) \<in> set d. pending (dn @ ps) A = filter (\<lambda>rule. rule \<in> N) (h0 a) \<Longrightarrow>
         \<forall>p \<in> set (dn @ ps). pending (dn @ ps) (snd p) = [] \<Longrightarrow>
         \<exists>h'. substitute_loop d ps h = Inr h' \<and>
           (\<forall>(A, a) \<in> set d. h' a =
              filter (\<lambda>rule. rule \<notin> N) (h0 a) @
              concat (map (target_list d h0) (filter (\<lambda>rule. rule \<in> N) (h0 a))) \<and>
              (\<forall>rule \<in> set (h' a). rule \<notin> N))"
proof (induction ps arbitrary: h dn)
  case Nil
  have "h a = filter (\<lambda>rule. rule \<notin> N) (h0 a) @
              concat (map (target_list d h0) (filter (\<lambda>rule. rule \<in> N) (h0 a))) \<and>
              (\<forall>rule \<in> set (h a). rule \<notin> N)"
    if m: "(A, a) \<in> set d" for A a
  proof -
    from Nil(1) m have "mset (filter (\<lambda>rule. rule \<in> N) (h a)) = {#}"
      by (auto simp: unit_inv2_def pending_def)
    then have none: "filter (\<lambda>rule. rule \<in> N) (h a) = []" by simp
    then have free: "\<forall>rule \<in> set (h a). rule \<notin> N" by (simp add: filter_empty_conv)
    from none have "filter (\<lambda>rule. rule \<notin> N) (h a) = h a" by (rule filter_none_other)
    moreover from Nil(2) m have "filter (\<lambda>rule. rule \<notin> N) (h a) =
        filter (\<lambda>rule. rule \<notin> N) (h0 a) @ concat (map (target_list d h0) (pending dn A))"
      by (auto simp: unit_inv3_def)
    moreover from Nil(3) m have "pending dn A = filter (\<lambda>rule. rule \<in> N) (h0 a)" by force
    ultimately show ?thesis using free by simp
  qed
  then show ?case by auto
next
  case (Cons p ps)
  obtain A r where p: "p = (A, r)" by (cases p)
  from substitute_step_inv3 [OF dk da Cons.prems(1) [unfolded p] Cons.prems(2)
      Cons.prems(3) [unfolded p] Cons.prems(4) [unfolded p]]
  obtain h1 where s: "substitute_step d (A, r) h = Inr h1"
    and i2: "unit_inv2 d N h1 ps" and i3: "unit_inv3 d N h0 h1 (dn @ [(A, r)])"
    by blast
  have e: "(dn @ [(A, r)]) @ ps = dn @ p # ps" by (simp add: p)
  from Cons.IH [OF i2 i3 Cons.prems(3) [folded e] Cons.prems(4) [folded e]]
  show ?case by (simp add: p s)
qed


lemma lookup_map_values:
  "lookup (map (\<lambda>(A, a). (A, f a)) d) k = map_option f (lookup d k)"
  by (induction d) auto

lemma target_list_alts: "target_list d h r = alts (map (\<lambda>(A, a). (A, h a)) d) r"
  by (simp add: target_list_def alts_def lookup_map_values split: option.splits)

lemma remove_unit_productions_lists:
  assumes dk: "distinct (map fst (productions st))" and da: "distinct (map snd (productions st))"
    and N: "non_terminals st \<subseteq> fst ` set (productions st)" and u0: "unit_productions st = []"
    and nc: "\<forall>(A, a) \<in> set (productions st). \<forall>r \<in> set (cells st a). r \<in> non_terminals st \<longrightarrow>
               (\<forall>(B, b) \<in> set (productions st). B = r \<longrightarrow>
                  (\<forall>r' \<in> set (cells st b). r' \<notin> non_terminals st))"
  shows "\<exists>h'. remove_unit_productions st = Inr ((find_unit_productions st)\<lparr>cells := h'\<rparr>) \<and>
           (\<forall>(A, a) \<in> set (productions st).
              h' a = filter (\<lambda>rule. rule \<notin> non_terminals st) (cells st a) @
                     concat (map (alts (items st))
                               (filter (\<lambda>rule. rule \<in> non_terminals st) (cells st a))) \<and>
              (\<forall>rule \<in> set (h' a). rule \<notin> non_terminals st))"
proof -
  let ?d = "productions st" and ?h = "cells st" and ?N = "non_terminals st"
  let ?ps = "recorded ?N (items st)"
  have i: "items st = map (\<lambda>(nt, a). (nt, ?h a)) ?d" by (simp add: items_def)
  have u: "unit_productions (find_unit_productions st) = ?ps"
    by (simp add: unit_productions_find u0)
  have i2: "unit_inv2 ?d ?N ?h ?ps"
    unfolding i by (rule unit_inv2_recorded [OF dk N nc])
  have i3: "unit_inv3 ?d ?N ?h ?h []"
    by (simp add: unit_inv3_def pending_Nil)
  have di: "distinct (map fst (items st))" using dk by (simp add: distinct_items)
  have F1: "\<forall>(A, a) \<in> set ?d. pending ([] @ ?ps) A = filter (\<lambda>rule. rule \<in> ?N) (?h a)"
  proof -
    have "pending ?ps A = filter (\<lambda>rule. rule \<in> ?N) (?h a)" if "(A, a) \<in> set ?d" for A a
    proof -
      from that have "(A, ?h a) \<in> set (items st)" unfolding i by force
      from pending_recorded [OF di this] show ?thesis .
    qed
    then show ?thesis by auto
  qed
  have F2: "\<forall>p \<in> set ([] @ ?ps). pending ([] @ ?ps) (snd p) = []"
    using i2 by (simp add: unit_inv2_def)
  from substitute_loop_lists [OF dk da i2 i3 F1 F2]
  obtain h' where l: "substitute_loop ?d ?ps ?h = Inr h'"
    and r: "\<forall>(A, a) \<in> set ?d. h' a =
              filter (\<lambda>rule. rule \<notin> ?N) (?h a) @
              concat (map (target_list ?d ?h) (filter (\<lambda>rule. rule \<in> ?N) (?h a))) \<and>
              (\<forall>rule \<in> set (h' a). rule \<notin> ?N)"
    by blast
  from l have "remove_unit_productions st = Inr ((find_unit_productions st)\<lparr>cells := h'\<rparr>)"
    by (simp add: remove_unit_productions_def substitute_unit_productions_def
          find_unit_productions_fields u)
  moreover have "target_list ?d ?h = alts (items st)"
    unfolding i by (rule ext) (rule target_list_alts)
  ultimately show ?thesis using r by auto
qed

text \<open>
  C4 (as the code has it): the stage substitutes each recorded unit once and computes no
  closure.  On a dictionary (distinct keys) in which every nonterminal has a list object
  of its own, and in which no nonterminal named by a unit alternative has a unit
  alternative of its own, the stage raises nothing and every nonterminal ends with its
  alternatives that are not nonterminals, in order, followed by the alternatives of each
  of its units, in the order of the units; the result then holds no alternative that is
  a nonterminal.
\<close>

theorem remove_unit_productions_no_chains:
  assumes "distinct (map fst g)" and "distinct (map snd g)"
    and "\<forall>(A, a) \<in> set g. \<forall>r \<in> set (h a). r \<in> fst ` set g \<longrightarrow>
           (\<forall>(B, b) \<in> set g. B = r \<longrightarrow> (\<forall>r' \<in> set (h b). r' \<notin> fst ` set g))"
  shows "\<exists>st'. remove_unit_productions (CFG_init h n g) = Inr st' \<and>
           items st' =
             map (\<lambda>(A, rules).
                    (A, [rule \<leftarrow> rules. rule \<notin> fst ` set g] @
                        concat (map (alts (items (CFG_init h n g)))
                                  [rule \<leftarrow> rules. rule \<in> fst ` set g])))
                 (items (CFG_init h n g)) \<and>
           (\<forall>(A, rules) \<in> set (items st'). \<forall>rule \<in> set rules. rule \<notin> non_terminals st')"
proof -
  let ?st = "CFG_init h n g"
  have f: "productions ?st = g" "cells ?st = h" "non_terminals ?st = fst ` set g"
    "unit_productions ?st = []"
    by (simp_all add: CFG_init_def)
  from remove_unit_productions_lists [of ?st, unfolded f, OF assms(1,2) subset_refl refl assms(3)]
  obtain h' where r: "remove_unit_productions ?st = Inr ((find_unit_productions ?st)\<lparr>cells := h'\<rparr>)"
    and u: "\<forall>(A, a) \<in> set g.
              h' a = filter (\<lambda>rule. rule \<notin> fst ` set g) (h a) @
                     concat (map (alts (items ?st)) (filter (\<lambda>rule. rule \<in> fst ` set g) (h a))) \<and>
              (\<forall>rule \<in> set (h' a). rule \<notin> fst ` set g)"
    by blast
  let ?st' = "(find_unit_productions ?st)\<lparr>cells := h'\<rparr>"
  have i: "items ?st' = map (\<lambda>(nt, a). (nt, h' a)) g" and nt: "non_terminals ?st' = fst ` set g"
    and i0: "items ?st = map (\<lambda>(nt, a). (nt, h a)) g"
    by (simp_all add: items_def find_unit_productions_fields f)
  have 1: "items ?st' =
             map (\<lambda>(A, rules).
                    (A, [rule \<leftarrow> rules. rule \<notin> fst ` set g] @
                        concat (map (alts (items ?st)) [rule \<leftarrow> rules. rule \<in> fst ` set g])))
                 (items ?st)"
    unfolding i using u unfolding i0 [symmetric] by (auto simp: i0 comp_def)
  have "rule \<notin> non_terminals ?st'" if "(A, rules) \<in> set (items ?st')" and "rule \<in> set rules"
    for A rules rule
  proof -
    from that(1) obtain a where "(A, a) \<in> set g" and "rules = h' a"
      unfolding i by auto
    with u that(2) show ?thesis unfolding nt by blast
  qed
  then have 2: "\<forall>(A, rules) \<in> set (items ?st'). \<forall>rule \<in> set rules. rule \<notin> non_terminals ?st'"
    by blast
  from r 1 2 show ?thesis by blast
qed

theorem remove_unit_productions_no_chains_witness:
  "\<exists>st'. remove_unit_productions one_step_example = Inr st' \<and>
      items st' = [(py ''A'', [py ''a'', py ''d'']), (py ''B'', [py ''d''])]"
proof -
  let ?g = "[(py ''A'', 0::nat), (py ''B'', 1)]"
  let ?h = "(\<lambda>_. [])(0 := [py ''B'', py ''a''], 1 := [py ''d''])"
  have 1: "distinct (map fst ?g)" by (simp add: py_simps)
  have 2: "distinct (map snd ?g)" by simp
  have 3: "\<forall>(A, a) \<in> set ?g. \<forall>r \<in> set (?h a). r \<in> fst ` set ?g \<longrightarrow>
           (\<forall>(B, b) \<in> set ?g. B = r \<longrightarrow> (\<forall>r' \<in> set (?h b). r' \<notin> fst ` set ?g))"
    by (simp add: py_simps)
  from remove_unit_productions_no_chains [OF 1 2 3, of 2]
  obtain st' where r: "remove_unit_productions (CFG_init ?h 2 ?g) = Inr st'"
    and i: "items st' =
             map (\<lambda>(A, rules).
                    (A, [rule \<leftarrow> rules. rule \<notin> fst ` set ?g] @
                        concat (map (alts (items (CFG_init ?h 2 ?g)))
                                  [rule \<leftarrow> rules. rule \<in> fst ` set ?g])))
                 (items (CFG_init ?h 2 ?g))"
    by blast
  have "items st' = [(py ''A'', [py ''a'', py ''d'']), (py ''B'', [py ''d''])]"
    unfolding i by (simp add: items_def CFG_init_def alts_def py_simps)
  with r show ?thesis unfolding one_step_example_def by blast
qed

lemma one_step_example_run:
  "map_sum id items (remove_unit_productions one_step_example) =
     Inr [(py ''A'', [py ''a'', py ''d'']), (py ''B'', [py ''d''])]"
  by (simp add: one_step_example_def eval_defs)

text \<open>
  C4 (as stated) fails: for \<open>A -> B, B -> C, C -> d\<close> one call leaves \<open>A -> C\<close>, a unit
  alternative, and \<open>A -> d\<close> is not in the result.
\<close>

theorem unit_closure_counterexample:
  "map_sum id items (remove_unit_productions unit_example) =
     Inr [(py ''A'', [py ''C'']), (py ''B'', [py ''d'']), (py ''C'', [py ''d''])] \<and>
   py ''C'' \<in> non_terminals unit_example \<and> py ''d'' \<notin> set [py ''C'']"
  by (simp add: unit_example_def eval_defs)


section \<open>The pipeline\<close>

lemma find_epsilon_productions_fields:
  "cells (find_epsilon_productions st) = cells st"
  "productions (find_epsilon_productions st) = productions st"
  "non_terminals (find_epsilon_productions st) = non_terminals st"
  "next_free (find_epsilon_productions st) = next_free st"
  "unit_productions (find_epsilon_productions st) = unit_productions st"
  "useful_symbols (find_epsilon_productions st) = useful_symbols st"
  by (simp_all add: find_epsilon_productions_def)

lemma remove_epsilon_productions_state:
  assumes "distinct (map fst (productions st))"
    and "\<forall>a \<in> snd ` set (productions st). a < next_free st"
  shows "\<exists>h'. remove_epsilon_productions st =
           st\<lparr>cells := h', next_free := next_free st + length (productions st),
              productions := zip (map fst (productions st))
                               [next_free st..<next_free st + length (productions st)]\<rparr> \<and>
           (\<forall>x < next_free st. h' x = cells st x) \<and>
           map h' [next_free st..<next_free st + length (productions st)] =
             map (\<lambda>(k, a). extend_rules (epsilon_non_terminals st) (cells st a)) (productions st)"
proof -
  from fold_remove_epsilon_step [OF assms(1) _ assms(2), of "[]"
      "epsilon_non_terminals st" "cells st"]
  obtain h' where
    f: "fold (remove_epsilon_step (epsilon_non_terminals st)) (productions st)
          (cells st, next_free st, []) =
        (h', next_free st + length (productions st),
         zip (map fst (productions st)) [next_free st..<next_free st + length (productions st)])"
    and keep: "\<forall>x < next_free st. h' x = cells st x"
    and new: "map h' [next_free st..<next_free st + length (productions st)] =
        map (\<lambda>(k, a). extend_rules (epsilon_non_terminals st) (cells st a)) (productions st)"
    by auto
  have "remove_epsilon_productions st =
           st\<lparr>cells := h', next_free := next_free st + length (productions st),
              productions := zip (map fst (productions st))
                               [next_free st..<next_free st + length (productions st)]\<rparr>"
    by (simp add: remove_epsilon_productions_def f)
  with keep new show ?thesis by blast
qed

lemma fold_remove_epsilon_step_frame:
  "fold (remove_epsilon_step E) d (h, n, nd) = (h', n', nd') \<Longrightarrow> n \<le> n' \<and> (\<forall>x < n. h' x = h x)"
proof (induction d arbitrary: h n nd)
  case Nil
  then show ?case by simp
next
  case (Cons p d)
  obtain k a where p: "p = (k, a)" by (cases p)
  have step: "remove_epsilon_step E p (h, n, nd) =
      (h(n := extend_rules E (h a)), Suc n, dict_set nd k n)"
    by (simp add: remove_epsilon_step_def p)
  from Cons.prems have "fold (remove_epsilon_step E) d
      (h(n := extend_rules E (h a)), Suc n, dict_set nd k n) = (h', n', nd')"
    by (simp add: step)
  from Cons.IH [OF this] show ?case by auto
qed

lemma remove_epsilon_productions_frame:
  "x < next_free st \<Longrightarrow> cells (remove_epsilon_productions st) x = cells st x"
proof -
  assume x: "x < next_free st"
  obtain h' n' nd' where f: "fold (remove_epsilon_step (epsilon_non_terminals st)) (productions st)
      (cells st, next_free st, []) = (h', n', nd')"
    by (metis prod_cases3)
  from fold_remove_epsilon_step_frame [OF f] x have "h' x = cells st x" by simp
  then show ?thesis by (simp add: remove_epsilon_productions_def f)
qed

lemma lookup_Some_mem: "lookup d k = Some v \<Longrightarrow> (k, v) \<in> set d"
  by (induction d) (auto split: if_splits)

lemma substitute_step_frame:
  assumes "substitute_step d p h = Inr h'" and "x \<notin> snd ` set d"
  shows "h' x = h x"
proof -
  obtain A r where p: "p = (A, r)" by (cases p)
  from assms(1) obtain a where a: "lookup d A = Some a"
    by (auto simp: p substitute_step_def split: option.splits)
  from lookup_Some_mem [OF a] assms(2) have "x \<noteq> a" by force
  with assms(1) a show ?thesis
    by (auto simp: p substitute_step_def Let_def split: option.splits)
qed

lemma substitute_loop_frame:
  "substitute_loop d ps h = Inr h' \<Longrightarrow> x \<notin> snd ` set d \<Longrightarrow> h' x = h x"
proof (induction ps arbitrary: h)
  case Nil
  then show ?case by simp
next
  case (Cons p ps)
  from Cons.prems(1) obtain h1 where s: "substitute_step d p h = Inr h1"
    and l: "substitute_loop d ps h1 = Inr h'"
    by (auto split: sum.splits)
  from Cons.IH [OF l Cons.prems(2)] substitute_step_frame [OF s Cons.prems(2)]
  show ?case by simp
qed

lemma remove_useless_symbols_fields:
  "cells (remove_useless_symbols islower st) = cells st"
  "next_free (remove_useless_symbols islower st) = next_free st"
  "non_terminals (remove_useless_symbols islower st) = non_terminals st"
  "productions (remove_useless_symbols islower st) =
     [(nt, rules) \<leftarrow> productions st. nt \<in> useful_symbols (find_useful_symbols islower st)]"
  by (simp_all add: remove_useless_symbols_def find_useful_symbols_def Let_def)


lemma remove_unit_productions_run:
  assumes "distinct (map fst (productions st))" and "distinct (map snd (productions st))"
    and "non_terminals st \<subseteq> fst ` set (productions st)" and "unit_productions st = []"
  shows "\<exists>h'. substitute_loop (productions st) (recorded (non_terminals st) (items st)) (cells st) =
             Inr h' \<and>
           remove_unit_productions st = Inr ((find_unit_productions st)\<lparr>cells := h'\<rparr>)"
proof -
  have u: "unit_productions (find_unit_productions st) = recorded (non_terminals st) (items st)"
    by (simp add: unit_productions_find assms(4))
  have "unit_inv (productions st) (cells st) (recorded (non_terminals st) (items st))"
    using unit_inv_recorded [OF assms(1,3), of "cells st"] by (simp add: items_def)
  from substitute_loop_Inr [OF assms(1,2) this]
  obtain h' where l: "substitute_loop (productions st) (recorded (non_terminals st) (items st))
      (cells st) = Inr h'" ..
  then have "remove_unit_productions st = Inr ((find_unit_productions st)\<lparr>cells := h'\<rparr>)"
    by (simp add: remove_unit_productions_def substitute_unit_productions_def
          find_unit_productions_fields u)
  with l show ?thesis by blast
qed

lemma remove_epsilon_run:
  assumes dk: "distinct (map fst g)" and al: "\<forall>a \<in> snd ` set g. a < n"
  shows "\<exists>h1. remove_epsilon (CFG_init h n g) =
           (find_epsilon_productions (CFG_init h n g))
             \<lparr>cells := h1, next_free := n + length g,
              productions := zip (map fst g) [n..<n + length g]\<rparr> \<and>
           (\<forall>x < n. h1 x = h x) \<and>
           map h1 [n..<n + length g] =
             map (\<lambda>(k, a). extend_rules
                    (epsilon_non_terminals (find_epsilon_productions (CFG_init h n g))) (h a)) g"
proof -
  let ?st = "find_epsilon_productions (CFG_init h n g)"
  have f: "productions ?st = g" "next_free ?st = n" "cells ?st = h"
    by (simp_all add: find_epsilon_productions_fields CFG_init_def)
  from remove_epsilon_productions_state [of ?st, unfolded f, OF dk al]
  show ?thesis unfolding remove_epsilon_def .
qed


lemma after_epsilon_fields:
  "productions (after_epsilon h n g h1) = zip (map fst g) [n..<n + length g]"
  "cells (after_epsilon h n g h1) = h1"
  "next_free (after_epsilon h n g h1) = n + length g"
  "non_terminals (after_epsilon h n g h1) = fst ` set g"
  "unit_productions (after_epsilon h n g h1) = []"
  "useful_symbols (after_epsilon h n g h1) = {}"
  by (simp_all add: after_epsilon_def find_epsilon_productions_fields CFG_init_def)

lemma after_units_fields:
  "productions (after_units h n g h1 h2) = zip (map fst g) [n..<n + length g]"
  "cells (after_units h n g h1 h2) = h2"
  "next_free (after_units h n g h1 h2) = n + length g"
  "non_terminals (after_units h n g h1 h2) = fst ` set g"
  "useful_symbols (after_units h n g h1 h2) = {}"
  by (simp_all add: after_units_def find_unit_productions_fields after_epsilon_fields)
     (simp_all add: find_unit_productions_def after_epsilon_fields)

lemma transform_decompose:
  assumes dk: "distinct (map fst g)" and al: "\<forall>a \<in> snd ` set g. a < n"
  shows "\<exists>h1 h2.
           (\<forall>x < n. h1 x = h x) \<and>
           map h1 [n..<n + length g] =
             map (\<lambda>(k, a). extend_rules
                    (epsilon_non_terminals (find_epsilon_productions (CFG_init h n g))) (h a)) g \<and>
           substitute_loop (zip (map fst g) [n..<n + length g])
             (recorded (fst ` set g) (items (after_epsilon h n g h1))) h1 = Inr h2 \<and>
           transform islower (CFG_init h n g) =
             Inr (remove_useless_symbols islower (after_units h n g h1 h2))"
proof -
  let ?d1 = "zip (map fst g) [n..<n + length g]"
  from remove_epsilon_run [OF dk al, where h = h]
  obtain h1 where e: "remove_epsilon (CFG_init h n g) = after_epsilon h n g h1"
    and keep: "\<forall>x < n. h1 x = h x"
    and new: "map h1 [n..<n + length g] =
             map (\<lambda>(k, a). extend_rules
                    (epsilon_non_terminals (find_epsilon_productions (CFG_init h n g))) (h a)) g"
    unfolding after_epsilon_def by blast
  let ?st1 = "after_epsilon h n g h1"
  have k1: "map fst ?d1 = map fst g" and a1: "map snd ?d1 = [n..<n + length g]"
    by simp_all
  have "set (map fst g) = set (map fst ?d1)" unfolding k1 ..
  then have "fst ` set g = fst ` set ?d1" unfolding set_map .
  then have sub: "fst ` set g \<subseteq> fst ` set ?d1" by (rule equalityD1)
  have "distinct (map fst ?d1)" and "distinct (map snd ?d1)"
    unfolding k1 a1 using dk by simp_all
  from remove_unit_productions_run [of ?st1, unfolded after_epsilon_fields, OF this sub refl]
  obtain h2 where l: "substitute_loop ?d1 (recorded (fst ` set g) (items ?st1)) h1 = Inr h2"
    and u: "remove_unit_productions ?st1 = Inr (after_units h n g h1 h2)"
    unfolding after_units_def by blast
  have "transform islower (CFG_init h n g) =
      Inr (remove_useless_symbols islower (after_units h n g h1 h2))"
    by (simp add: transform_def e u)
  with keep new l show ?thesis by blast
qed

lemma transform_run:
  assumes dk: "distinct (map fst g)" and al: "\<forall>a \<in> snd ` set g. a < n"
  shows "\<exists>st'. transform islower (CFG_init h n g) = Inr st' \<and>
           (\<forall>x < n. cells st' x = h x) \<and>
           next_free st' = n + length g \<and>
           set (productions st') \<subseteq> set (zip (map fst g) [n..<n + length g]) \<and>
           distinct (map fst (productions st'))"
proof -
  let ?d1 = "zip (map fst g) [n..<n + length g]"
  from transform_decompose [OF dk al, where islower = islower and h = h]
  obtain h1 h2 where keep: "\<forall>x < n. h1 x = h x"
    and l: "substitute_loop ?d1 (recorded (fst ` set g) (items (after_epsilon h n g h1))) h1 = Inr h2"
    and t: "transform islower (CFG_init h n g) =
             Inr (remove_useless_symbols islower (after_units h n g h1 h2))"
    by blast
  let ?st3 = "remove_useless_symbols islower (after_units h n g h1 h2)"
  have k1: "map fst ?d1 = map fst g" and a1: "map snd ?d1 = [n..<n + length g]"
    by simp_all
  have "set (map snd ?d1) = {n..<n + length g}" unfolding a1 by simp
  then have "snd ` set ?d1 = {n..<n + length g}" unfolding set_map .
  then have "\<forall>x < n. h2 x = h1 x"
    using substitute_loop_frame [OF l] by auto
  with keep have c: "\<forall>x < n. cells ?st3 x = h x"
    by (simp add: remove_useless_symbols_fields after_units_fields)
  have nf: "next_free ?st3 = n + length g"
    by (simp add: remove_useless_symbols_fields after_units_fields)
  have p3: "set (productions ?st3) \<subseteq> set ?d1"
    unfolding remove_useless_symbols_fields after_units_fields by auto
  have "distinct (map fst ?d1)" unfolding k1 by (rule dk)
  then have d3: "distinct (map fst (productions ?st3))"
    unfolding remove_useless_symbols_fields after_units_fields by (rule distinct_map_filter)
  from t c nf p3 d3 show ?thesis by blast
qed

text \<open>
  C9 (as the code has it): nothing is validated.  The constructor keeps the dictionary
  and the lists it is given, and for every dictionary of allocated lists \<open>transform\<close>
  runs to its end and returns a result, whatever the alternatives contain.
\<close>

theorem transform_never_rejects:
  assumes "distinct (map fst g)" and "\<forall>a \<in> snd ` set g. a < n"
  shows "productions (CFG_init h n g) = g \<and> cells (CFG_init h n g) = h \<and>
         (\<exists>st'. transform islower (CFG_init h n g) = Inr st')"
proof -
  from transform_run [OF assms, where islower = islower and h = h]
  have "\<exists>st'. transform islower (CFG_init h n g) = Inr st'" by blast
  then show ?thesis by (simp add: CFG_init_def)
qed

theorem transform_never_rejects_witness:
  "spec_malformed_epsilon (items malformed_example) \<and>
   (\<exists>st'. transform py_islower malformed_example = Inr st')"
proof -
  let ?g = "[(py ''S'', 0::nat)]"
  have 1: "distinct (map fst ?g)" by simp
  have 2: "\<forall>a \<in> snd ` set ?g. a < 1" by simp
  from transform_never_rejects [OF 1 2, where islower = py_islower
      and h = "(\<lambda>_. [])(0 := [py ''a'' @ eps, py ''b''])"]
  have "\<exists>st'. transform py_islower malformed_example = Inr st'"
    unfolding malformed_example_def by blast
  moreover have "spec_malformed_epsilon (items malformed_example)"
    by (simp add: spec_malformed_epsilon_def malformed_example_def CFG_init_def items_def
          py_simps eps_def)
  ultimately show ?thesis by blast
qed

text \<open>
  C9 (as stated) fails: \<open>S -> a\<epsilon> | b\<close> mixes the marker with a symbol and \<open>transform\<close>
  returns it unchanged; a transition into the undeclared state \<open>q9\<close> is converted like any
  other.
\<close>

theorem eager_validation_counterexample:
  "spec_malformed_epsilon (items malformed_example) \<and>
   map_sum id items (transform py_islower malformed_example) =
     Inr [(py ''S'', [py ''a'' @ eps, py ''b''])] \<and>
   spec_undefined_state undeclared_example \<and>
   cfg_productions (convert undeclared_example) = [(py ''q0Zq9'', [py ''aq0q9'', py ''a''])]"
proof -
  have "spec_malformed_epsilon (items malformed_example)"
    by (simp add: spec_malformed_epsilon_def malformed_example_def CFG_init_def items_def
          py_simps eps_def)
  moreover have "map_sum id items (transform py_islower malformed_example) =
     Inr [(py ''S'', [py ''a'' @ eps, py ''b''])]"
    by (simp add: malformed_example_def eval_defs py_islower_def)
  moreover have "spec_undefined_state undeclared_example"
    by (simp add: spec_undefined_state_def undeclared_example_def PDAtoCFG_init_def py_simps)
  moreover have "cfg_productions (convert undeclared_example) =
      [(py ''q0Zq9'', [py ''aq0q9'', py ''a''])]"
    by (simp add: undeclared_example_def convert_def convert_productions_def PDAtoCFG_init_def
        add_production_def rhs_at_def py_simps eps_def)
  ultimately show ?thesis by blast
qed

text \<open>
  C8 (as the code has it): the epsilon stage writes to no list that existed before it,
  and the pruning stage writes to no list at all; both bind a new dictionary.  The unit
  stage works in place on the lists of the dictionary it finds.  In \<open>transform\<close> that
  dictionary is the one the epsilon stage has just built, so the whole call leaves the
  caller's lists as they were and returns a dictionary that shares no list with them.
\<close>

theorem stages_frame:
  assumes "distinct (map fst g)" and "\<forall>a \<in> snd ` set g. a < n"
  shows "(\<forall>x < next_free st. cells (remove_epsilon st) x = cells st x) \<and>
         cells (remove_useless_symbols islower st) = cells st \<and>
         (\<exists>st'. transform islower (CFG_init h n g) = Inr st' \<and>
            (\<forall>x < n. cells st' x = h x) \<and>
            map (\<lambda>(A, a). (A, cells st' a)) g = map (\<lambda>(A, a). (A, h a)) g \<and>
            (\<forall>a \<in> snd ` set (productions st'). n \<le> a))"
proof -
  have 1: "\<forall>x < next_free st. cells (remove_epsilon st) x = cells st x"
    using remove_epsilon_productions_frame [of _ "find_epsilon_productions st"]
    by (simp add: remove_epsilon_def find_epsilon_productions_fields)
  have 2: "cells (remove_useless_symbols islower st) = cells st"
    by (simp add: remove_useless_symbols_fields)
  from transform_run [OF assms, where islower = islower and h = h]
  obtain st' where t: "transform islower (CFG_init h n g) = Inr st'"
    and c: "\<forall>x < n. cells st' x = h x"
    and p: "set (productions st') \<subseteq> set (zip (map fst g) [n..<n + length g])"
    by blast
  have m: "map (\<lambda>(A, a). (A, cells st' a)) g = map (\<lambda>(A, a). (A, h a)) g"
    using assms(2) c by (auto simp: image_iff)
  have "n \<le> a" if "a \<in> snd ` set (productions st')" for a
  proof -
    from that p obtain k where "(k, a) \<in> set (zip (map fst g) [n..<n + length g])" by auto
    then have "a \<in> set [n..<n + length g]" by (rule set_zip_rightD)
    then show ?thesis by simp
  qed
  with 1 2 t c m show ?thesis by blast
qed

theorem stages_frame_witness:
  "\<exists>st'. transform py_islower one_step_example = Inr st' \<and>
     cells st' 0 = [py ''B'', py ''a''] \<and> cells st' 1 = [py ''d'']"
proof -
  let ?g = "[(py ''A'', 0::nat), (py ''B'', 1)]"
  let ?h = "(\<lambda>_. [])(0 := [py ''B'', py ''a''], 1 := [py ''d''])"
  have 1: "distinct (map fst ?g)" by (simp add: py_simps)
  have 2: "\<forall>a \<in> snd ` set ?g. a < 2" by simp
  from stages_frame [OF 1 2, where islower = py_islower and h = ?h]
  obtain st' where "transform py_islower one_step_example = Inr st'"
    and "\<forall>x < 2. cells st' x = ?h x"
    unfolding one_step_example_def by blast
  then have "transform py_islower one_step_example = Inr st' \<and>
     cells st' 0 = [py ''B'', py ''a''] \<and> cells st' 1 = [py ''d'']"
    by simp
  then show ?thesis ..
qed

text \<open>
  C8 (as stated) fails for the unit stage called on its own: for \<open>A -> B | a, B -> d\<close>
  the dictionary of the object is the caller's before and after, and the caller's list
  of \<open>A\<close> has become \<open>a, d\<close>.
\<close>

theorem in_place_counterexample:
  "cells one_step_example 0 = [py ''B'', py ''a''] \<and>
   map_sum id (\<lambda>st'. (productions st', cells st' 0)) (remove_unit_productions one_step_example) =
     Inr (productions one_step_example, [py ''a'', py ''d''])"
  by (simp add: one_step_example_def eval_defs)

lemma extend_rules_empty: "eps \<notin> set rules \<Longrightarrow> extend_rules {} rules = rules"
proof -
  assume e: "eps \<notin> set rules"
  have "generate_new_rules {} rule = []" for rule
    by (rule generate_new_rules_Nil) (simp add: list_ex_iff)
  then have "concat (map (generate_new_rules {}) rules) = []" by simp
  moreover from e have "[rule \<leftarrow> rules. rule \<noteq> eps] = rules"
    by (simp add: filter_id_conv) blast
  ultimately show ?thesis by (simp add: extend_rules_eq)
qed

lemma recorded_Nil:
  "\<forall>(A, rules) \<in> set its. \<forall>rule \<in> set rules. rule \<notin> N \<Longrightarrow> recorded N its = []"
  by (induction its) (auto simp: recorded_def filter_empty_conv)

lemma transform_fixed_point:
  assumes dk: "distinct (map fst g)" and al: "\<forall>a \<in> snd ` set g. a < n"
    and c1: "\<forall>(A, a) \<in> set g. eps \<notin> set (h a)"
    and c2: "\<forall>(A, a) \<in> set g. \<forall>rule \<in> set (h a). rule \<notin> fst ` set g"
    and c3: "\<forall>(A, a) \<in> set g. \<exists>rule \<in> set (h a). \<forall>c \<in> set rule. islower c \<or> [c] \<in> fst ` set g"
  shows "\<exists>st'. transform islower (CFG_init h n g) = Inr st' \<and>
           items st' = map (\<lambda>(A, a). (A, h a)) g"
proof -
  let ?its = "map (\<lambda>(A, a). (A, h a)) g"
  let ?d1 = "zip (map fst g) [n..<n + length g]"
  have i0: "items (CFG_init h n g) = ?its"
    by (simp add: items_def CFG_init_def)
  have "{nt. \<exists>rules. (nt, rules) \<in> set ?its \<and> eps \<in> set rules} = {}"
    using c1 by auto
  then have E0: "epsilon_non_terminals (find_epsilon_productions (CFG_init h n g)) = {}"
    by (simp add: find_epsilon_productions_def fold_eps_rules fold_eps_items i0)
       (simp add: CFG_init_def)
  from transform_decompose [OF dk al, where islower = islower and h = h]
  obtain h1 h2 where
    new: "map h1 [n..<n + length g] = map (\<lambda>(k, a). extend_rules {} (h a)) g"
    and l: "substitute_loop ?d1 (recorded (fst ` set g) (items (after_epsilon h n g h1))) h1 = Inr h2"
    and t: "transform islower (CFG_init h n g) =
             Inr (remove_useless_symbols islower (after_units h n g h1 h2))"
    unfolding E0 by blast
  have "map (\<lambda>(k, a). extend_rules {} (h a)) g = map (\<lambda>(k, a). (\<lambda>x. x) (h a)) g"
    using c1 by (intro map_cong refl) (auto simp: extend_rules_empty)
  with new have new': "map h1 [n..<n + length g] = map (\<lambda>(k, a). (\<lambda>x. x) (h a)) g" by simp
  have i1: "map (\<lambda>(k, a). (k, h1 a)) ?d1 = ?its"
    using zip_keys_items [where f = "\<lambda>x. x" and h = h, OF new'] by simp
  then have ie: "items (after_epsilon h n g h1) = ?its"
    by (simp add: items_def after_epsilon_fields)
  have k: "fst ` set ?its = fst ` set g" by (simp add: image_image case_prod_unfold)
  have "rule \<notin> fst ` set g" if "(A, rules) \<in> set ?its" and "rule \<in> set rules" for A rules rule
  proof -
    from that(1) obtain a where "(A, a) \<in> set g" and "rules = h a" by auto
    with c2 that(2) show ?thesis by blast
  qed
  then have "\<forall>(A, rules) \<in> set ?its. \<forall>rule \<in> set rules. rule \<notin> fst ` set g"
    by blast
  then have "recorded (fst ` set g) ?its = []" by (rule recorded_Nil)
  with l have h2: "h2 = h1" unfolding ie by simp
  let ?st2 = "after_units h n g h1 h1"
  have i2: "items ?st2 = ?its"
    using i1 by (simp add: items_def after_units_fields)
  have d2: "distinct (map fst (productions ?st2))"
    using dk by (simp add: after_units_fields)
  have "items (remove_useless_symbols islower ?st2) =
     [(nt, rules) \<leftarrow> ?its.
        \<exists>rule \<in> set rules. \<forall>symbol \<in> set rule. islower symbol \<or> [symbol] \<in> fst ` set g]"
    using items_remove_useless_symbols_distinct [OF d2, where islower = islower]
    by (simp add: after_units_fields i2)
  also have "\<dots> = ?its"
    using c3 by (auto simp: filter_id_conv)
  finally have "items (remove_useless_symbols islower ?st2) = ?its" .
  with t show ?thesis unfolding h2 by blast
qed

text \<open>
  C7 (as the code has it): when the result of \<open>transform\<close> has no alternative equal to
  the marker, no alternative that is one of its keys, and in every nonterminal an
  alternative made of lower-case characters and one-character keys, a second
  \<open>transform\<close>, on a new object built from that result, returns the same alternatives
  in the same order.
\<close>

theorem normalize_twice_fixed:
  assumes dk: "distinct (map fst g)" and al: "\<forall>a \<in> snd ` set g. a < n"
    and t: "transform islower (CFG_init h n g) = Inr st1"
    and c1: "\<forall>(A, rules) \<in> set (items st1). eps \<notin> set rules"
    and c2: "\<forall>(A, rules) \<in> set (items st1). \<forall>rule \<in> set rules. rule \<notin> fst ` set (items st1)"
    and c3: "\<forall>(A, rules) \<in> set (items st1).
               \<exists>rule \<in> set rules. \<forall>c \<in> set rule. islower c \<or> [c] \<in> fst ` set (items st1)"
  shows "\<exists>st2. normalize_twice islower (CFG_init h n g) = Inr st2 \<and> items st2 = items st1"
proof -
  let ?g1 = "productions st1" and ?h1 = "cells st1" and ?n1 = "next_free st1"
  from transform_run [OF dk al, where islower = islower and h = h] t
  have nf: "?n1 = n + length g"
    and p: "set ?g1 \<subseteq> set (zip (map fst g) [n..<n + length g])"
    and d1: "distinct (map fst ?g1)"
    by auto
  have a1: "\<forall>a \<in> snd ` set ?g1. a < ?n1"
  proof
    fix a assume "a \<in> snd ` set ?g1"
    with p obtain k where "(k, a) \<in> set (zip (map fst g) [n..<n + length g])" by auto
    then have "a \<in> set [n..<n + length g]" by (rule set_zip_rightD)
    then show "a < ?n1" unfolding nf by simp
  qed
  have i: "items st1 = map (\<lambda>(A, a). (A, ?h1 a)) ?g1" by (simp add: items_def)
  have k: "fst ` set (items st1) = fst ` set ?g1"
    unfolding i by (simp add: image_image case_prod_unfold)
  have mem: "(A, ?h1 a) \<in> set (items st1)" if "(A, a) \<in> set ?g1" for A a
    unfolding i using that by force
  have e1: "\<forall>(A, a) \<in> set ?g1. eps \<notin> set (?h1 a)"
    using c1 mem by blast
  have e2: "\<forall>(A, a) \<in> set ?g1. \<forall>rule \<in> set (?h1 a). rule \<notin> fst ` set ?g1"
    using c2 mem unfolding k by blast
  have e3: "\<forall>(A, a) \<in> set ?g1. \<exists>rule \<in> set (?h1 a). \<forall>c \<in> set rule.
      islower c \<or> [c] \<in> fst ` set ?g1"
    using c3 mem unfolding k by blast
  from transform_fixed_point [OF d1 a1 e1 e2 e3]
  obtain st2 where "transform islower (CFG_init ?h1 ?n1 ?g1) = Inr st2"
    and "items st2 = items st1"
    unfolding i by blast
  then have "normalize_twice islower (CFG_init h n g) = Inr st2 \<and> items st2 = items st1"
    by (simp add: normalize_twice_def t)
  then show ?thesis ..
qed

theorem normalize_twice_fixed_witness:
  "\<exists>st2. normalize_twice py_islower one_step_example = Inr st2 \<and>
     items st2 = [(py ''A'', [py ''a'', py ''d'']), (py ''B'', [py ''d''])]"
proof -
  let ?g = "[(py ''A'', 0::nat), (py ''B'', 1)]"
  let ?h = "(\<lambda>_. [])(0 := [py ''B'', py ''a''], 1 := [py ''d''])"
  have 1: "distinct (map fst ?g)" by (simp add: py_simps)
  have 2: "\<forall>a \<in> snd ` set ?g. a < 2" by simp
  from transform_run [OF 1 2, where islower = py_islower and h = ?h]
  obtain st1 where t: "transform py_islower (CFG_init ?h 2 ?g) = Inr st1" by blast
  have "map_sum id items (transform py_islower (CFG_init ?h 2 ?g)) =
      Inr [(py ''A'', [py ''a'', py ''d'']), (py ''B'', [py ''d''])]"
    by (simp add: eval_defs py_islower_def)
  then have i: "items st1 = [([65], [ [97], [100]]), ([66], [ [100]])]"
    unfolding t by (simp add: py_simps)
  have 3: "\<forall>(A, rules) \<in> set (items st1). eps \<notin> set rules"
    unfolding i by (simp add: eps_def)
  have 4: "\<forall>(A, rules) \<in> set (items st1). \<forall>rule \<in> set rules. rule \<notin> fst ` set (items st1)"
    unfolding i by simp
  have 5: "\<forall>(A, rules) \<in> set (items st1).
      \<exists>rule \<in> set rules. \<forall>c \<in> set rule. py_islower c \<or> [c] \<in> fst ` set (items st1)"
    unfolding i by (simp add: py_islower_def)
  from normalize_twice_fixed [OF 1 2 t 3 4 5]
  show ?thesis unfolding one_step_example_def i by (simp add: py_simps)
qed

text \<open>
  C7 (as stated) fails: for \<open>A -> B, B -> C, C -> d\<close> the first \<open>transform\<close> returns
  \<open>A -> C\<close> and the second turns it into \<open>A -> d\<close>.
\<close>

theorem idempotence_counterexample:
  "map_sum id items (transform py_islower unit_example) =
     Inr [(py ''A'', [py ''C'']), (py ''B'', [py ''d'']), (py ''C'', [py ''d''])] \<and>
   map_sum id items (normalize_twice py_islower unit_example) =
     Inr [(py ''A'', [py ''d'']), (py ''B'', [py ''d'']), (py ''C'', [py ''d''])] \<and>
   set [py ''C''] \<noteq> set [py ''d'']"
  by (simp add: normalize_twice_def unit_example_def eval_defs py_islower_def)


end
